theory Spec2Isabelle
  imports Main "HOL-Library.Word" "HOL-Library.Multiset"
begin

unbundle bit_operations_syntax

section \<open>Python values used by \<open>count_unique_ipv6.py\<close>\<close>

text \<open>
  A Python \<open>str\<close> is a sequence of Unicode code points; it is modelled as a list of
  natural numbers, so that \<open>len\<close> is \<open>length\<close> and every code point (also those above
  U+00FF) is in the model. \<open>py\<close> turns an Isabelle string literal of ASCII characters
  into such a list.
\<close>

type_synonym pystr = "nat list"

definition py :: "string \<Rightarrow> pystr" where
  "py s = map of_char s"

text \<open>The exceptions that the program and the library functions it calls can raise.\<close>

datatype error =
    AddressValueError
  | ValueError
  | TypeError
  | OSError
  | UnicodeEncodeError
  | SystemExit

subsection \<open>\<open>str\<close> methods\<close>

text \<open>
  \<open>str.strip()\<close> without argument removes leading and trailing white space, that is the
  code points for which \<open>str.isspace\<close> holds: U+0009..U+000D, U+001C..U+0020, U+0085,
  U+00A0, U+1680, U+2000..U+200A, U+2028, U+2029, U+202F, U+205F and U+3000.
\<close>

definition isspace :: "nat \<Rightarrow> bool" where
  "isspace c \<longleftrightarrow>
     (9 \<le> c \<and> c \<le> 13) \<or> (28 \<le> c \<and> c \<le> 32) \<or> c = 133 \<or> c = 160 \<or> c = 5760 \<or>
     (8192 \<le> c \<and> c \<le> 8202) \<or> c = 8232 \<or> c = 8233 \<or> c = 8239 \<or> c = 8287 \<or> c = 12288"

definition strip :: "pystr \<Rightarrow> pystr" where
  "strip s = rev (dropWhile isspace (rev (dropWhile isspace s)))"

text \<open>\<open>s.split(sep)\<close> for a separator of one code point: always at least one part.\<close>

fun split :: "nat \<Rightarrow> pystr \<Rightarrow> pystr list" where
  "split sep [] = [[]]"
| "split sep (c # cs) =
     (if c = sep then [] # split sep cs
      else (case split sep cs of [] \<Rightarrow> [[c]] | p # ps \<Rightarrow> (c # p) # ps))"

text \<open>\<open>sep.join(parts)\<close> for a separator of one code point.\<close>

fun join :: "nat \<Rightarrow> pystr list \<Rightarrow> pystr" where
  "join sep [] = []"
| "join sep [p] = p"
| "join sep (p # q # ps) = p @ sep # join sep (q # ps)"

text \<open>
  \<open>s.partition(sep)\<close> for a separator of one code point: the text before the first
  separator, whether a separator was found, and the text after it.
\<close>

definition partition_str :: "nat \<Rightarrow> pystr \<Rightarrow> pystr \<times> bool \<times> pystr" where
  "partition_str sep s =
     (takeWhile (\<lambda>c. c \<noteq> sep) s, sep \<in> set s, drop 1 (dropWhile (\<lambda>c. c \<noteq> sep) s))"

text \<open>
  \<open>str.lower()\<close> on ASCII code points. The program applies it to the result of
  \<open>exploded\<close> only, which holds hexadecimal digits and colons (lemma
  \<open>exploded_chars\<close> below); the lowering of letters outside ASCII is not modelled.
\<close>

definition lower :: "pystr \<Rightarrow> pystr" where
  "lower s = map (\<lambda>c. if 65 \<le> c \<and> c \<le> 90 then c + 32 else c) s"

subsection \<open>Numbers and digits\<close>

definition digit_char :: "nat \<Rightarrow> nat" where
  "digit_char d = (if d < 10 then 48 + d else 87 + d)"

text \<open>\<open>'%x' % n\<close>: lower-case hexadecimal without leading zeros.\<close>

fun hex_of :: "nat \<Rightarrow> pystr" where
  "hex_of n = (if n < 16 then [digit_char n] else hex_of (n div 16) @ [digit_char (n mod 16)])"

declare hex_of.simps [simp del]

text \<open>\<open>str(n)\<close> for a natural number: decimal without leading zeros.\<close>

fun dec_of :: "nat \<Rightarrow> pystr" where
  "dec_of n = (if n < 10 then [digit_char n] else dec_of (n div 10) @ [digit_char (n mod 10)])"

declare dec_of.simps [simp del]

text \<open>Zero padding on the left up to a width, as \<open>'%032x'\<close> and \<open>f"{i:04d}"\<close> do.\<close>

definition zfill :: "nat \<Rightarrow> pystr \<Rightarrow> pystr" where
  "zfill w s = replicate (w - length s) 48 @ s"

text \<open>The value of a digit character in a base, if it is one (both cases of a letter).\<close>

definition digit_value :: "nat \<Rightarrow> nat \<Rightarrow> nat option" where
  "digit_value base c =
     (let d = (if 48 \<le> c \<and> c \<le> 57 then Some (c - 48)
               else if 97 \<le> c \<and> c \<le> 122 then Some (c - 87)
               else if 65 \<le> c \<and> c \<le> 90 then Some (c - 55)
               else None)
      in case d of None \<Rightarrow> None | Some v \<Rightarrow> if v < base then Some v else None)"

text \<open>
  \<open>int(s, base)\<close> on a string made of digits of the base: the callers below check the
  characters first, so signs, white space, underscores and prefixes never reach it.
  The empty string raises \<open>ValueError\<close>, as does any other character.
\<close>

definition py_int :: "pystr \<Rightarrow> nat \<Rightarrow> error + nat" where
  "py_int s base =
     (if s = [] \<or> (\<exists>c \<in> set s. digit_value base c = None) then Inl ValueError
      else Inr (foldl (\<lambda>a c. a * base + the (digit_value base c)) 0 s))"

section \<open>The standard library's \<open>ipaddress\<close> module (CPython 3.11)\<close>

text \<open>
  \<open>ipv6_to_canonical\<close> calls \<open>ipaddress.IPv6Address(s).exploded\<close>. The functions below
  follow \<open>Lib/ipaddress.py\<close>: \<open>IPv4Address.__init__\<close>, \<open>_BaseV4._ip_int_from_string\<close>,
  \<open>_parse_octet\<close>, \<open>IPv6Address.__init__\<close>, \<open>_split_scope_id\<close>,
  \<open>_BaseV6._ip_int_from_string\<close>, \<open>_parse_hextet\<close>, \<open>_compress_hextets\<close>,
  \<open>_string_from_ip_int\<close>, \<open>__str__\<close> and \<open>_explode_shorthand_ip_string\<close>.
  \<open>AddressValueError\<close> is a subclass of \<open>ValueError\<close>; the library turns every
  \<open>ValueError\<close> of the parsing helpers into an \<open>AddressValueError\<close>.
\<close>

definition as_address_error :: "error + 'a \<Rightarrow> error + 'a" where
  "as_address_error r = (case r of Inl e \<Rightarrow> Inl AddressValueError | Inr v \<Rightarrow> Inr v)"

subsection \<open>IPv4 (for the dotted suffix of an IPv6 address)\<close>

definition parse_octet :: "pystr \<Rightarrow> error + nat" where
  "parse_octet octet_str =
     (if octet_str = [] then Inl ValueError
      else if \<not> (\<forall>c \<in> set octet_str. 48 \<le> c \<and> c \<le> 57) then Inl ValueError
      else if length octet_str > 3 then Inl ValueError
      else if octet_str \<noteq> [48] \<and> hd octet_str = 48 then Inl ValueError
      else (case py_int octet_str 10 of
              Inl e \<Rightarrow> Inl e
            | Inr octet_int \<Rightarrow> if octet_int > 255 then Inl ValueError else Inr octet_int))"

text \<open>\<open>int.from_bytes(map(parse_octet, octets), 'big')\<close>, failing at the first bad octet.\<close>

fun octets_to_int :: "nat \<Rightarrow> pystr list \<Rightarrow> error + nat" where
  "octets_to_int acc [] = Inr acc"
| "octets_to_int acc (octet # rest) =
     (case parse_octet octet of
        Inl e \<Rightarrow> Inl e
      | Inr b \<Rightarrow> octets_to_int (acc * 256 + b) rest)"

definition v4_ip_int_from_string :: "pystr \<Rightarrow> error + nat" where
  "v4_ip_int_from_string ip_str =
     (if ip_str = [] then Inl AddressValueError
      else let octets = split 46 ip_str in
        if length octets \<noteq> 4 then Inl AddressValueError
        else as_address_error (octets_to_int 0 octets))"

definition IPv4Address :: "pystr \<Rightarrow> error + nat" where
  "IPv4Address addr_str =
     (if 47 \<in> set addr_str then Inl AddressValueError
      else v4_ip_int_from_string addr_str)"

subsection \<open>IPv6\<close>

definition HEX_DIGITS :: "nat set" where
  "HEX_DIGITS = set (py ''0123456789ABCDEFabcdef'')"

definition parse_hextet :: "pystr \<Rightarrow> error + nat" where
  "parse_hextet hextet_str =
     (if \<not> set hextet_str \<subseteq> HEX_DIGITS then Inl ValueError
      else if length hextet_str > 4 then Inl ValueError
      else py_int hextet_str 16)"

text \<open>
  The two loops \<open>ip_int <<= 16; ip_int |= cls._parse_hextet(part)\<close>, failing at the
  first bad hextet.
\<close>

fun parse_hextets :: "nat \<Rightarrow> pystr list \<Rightarrow> error + nat" where
  "parse_hextets ip_int [] = Inr ip_int"
| "parse_hextets ip_int (part # rest) =
     (case parse_hextet part of
        Inl e \<Rightarrow> Inl e
      | Inr h \<Rightarrow> parse_hextets (push_bit 16 ip_int OR h) rest)"

text \<open>
  The loop that looks for \<open>'::'\<close>: over \<open>i\<close> in \<open>range(1, len(parts) - 1)\<close>, an empty
  part sets \<open>skip_index\<close>, and a second one is an error.
\<close>

fun find_skip_index :: "pystr list \<Rightarrow> nat list \<Rightarrow> nat option \<Rightarrow> error + nat option" where
  "find_skip_index parts [] skip_index = Inr skip_index"
| "find_skip_index parts (i # rest) skip_index =
     (if parts ! i = [] then
        (if skip_index \<noteq> None then Inl AddressValueError
         else find_skip_index parts rest (Some i))
      else find_skip_index parts rest skip_index)"

text \<open>
  \<open>_BaseV6._ip_int_from_string\<close> after the IPv4 suffix has been replaced: the checks
  on the number of parts and on \<open>'::'\<close>, then the hextets above and below the skipped
  run. \<open>parts_hi - 1\<close> and \<open>parts_lo - 1\<close> are taken on numbers that are at least 1
  there (the skip index is at least 1 and at most \<open>len(parts) - 2\<close>).
\<close>

definition v6_parts_to_int :: "pystr list \<Rightarrow> error + nat" where
  "v6_parts_to_int parts =
     (if length parts > 9 then Inl AddressValueError
      else case find_skip_index parts [1 ..< length parts - 1] None of
        Inl e \<Rightarrow> Inl e
      | Inr (Some skip_index) \<Rightarrow>
          (let parts_hi = (if hd parts = [] then skip_index - 1 else skip_index);
               parts_lo = (if last parts = [] then length parts - skip_index - 1 - 1
                           else length parts - skip_index - 1)
           in if hd parts = [] \<and> parts_hi \<noteq> 0 then Inl AddressValueError
              else if last parts = [] \<and> parts_lo \<noteq> 0 then Inl AddressValueError
              else if parts_hi + parts_lo > 7 then Inl AddressValueError
              else as_address_error
                (case parse_hextets 0 (take parts_hi parts) of
                   Inl e \<Rightarrow> Inl e
                 | Inr ip_int \<Rightarrow>
                     parse_hextets (push_bit (16 * (8 - (parts_hi + parts_lo))) ip_int)
                       (drop (length parts - parts_lo) parts)))
      | Inr None \<Rightarrow>
          (if length parts \<noteq> 8 then Inl AddressValueError
           else if hd parts = [] then Inl AddressValueError
           else if last parts = [] then Inl AddressValueError
           else as_address_error (parse_hextets 0 parts)))"

definition v6_ip_int_from_string :: "pystr \<Rightarrow> error + nat" where
  "v6_ip_int_from_string ip_str =
     (if ip_str = [] then Inl AddressValueError
      else let parts = split 58 ip_str in
        if length parts < 3 then Inl AddressValueError
        else if 46 \<in> set (last parts) then
          (case IPv4Address (last parts) of
             Inl e \<Rightarrow> Inl AddressValueError
           | Inr ipv4_int \<Rightarrow>
               v6_parts_to_int (butlast parts @
                 [hex_of (drop_bit 16 ipv4_int AND 65535), hex_of (ipv4_int AND 65535)]))
        else v6_parts_to_int parts)"

definition split_scope_id :: "pystr \<Rightarrow> error + pystr \<times> pystr option" where
  "split_scope_id ip_str =
     (case partition_str 37 ip_str of (addr, sep, scope_id) \<Rightarrow>
        if \<not> sep then Inr (addr, None)
        else if scope_id = [] \<or> 37 \<in> set scope_id then Inl AddressValueError
        else Inr (addr, Some scope_id))"

text \<open>An \<open>IPv6Address\<close> object: the 128-bit integer \<open>_ip\<close> and the zone \<open>_scope_id\<close>.\<close>

record ipv6_address =
  ip :: nat
  scope_id :: "pystr option"

definition IPv6Address :: "pystr \<Rightarrow> error + ipv6_address" where
  "IPv6Address addr_str =
     (if 47 \<in> set addr_str then Inl AddressValueError
      else case split_scope_id addr_str of
        Inl e \<Rightarrow> Inl e
      | Inr (addr, scope) \<Rightarrow>
          (case v6_ip_int_from_string addr of
             Inl e \<Rightarrow> Inl e
           | Inr ip_int \<Rightarrow> Inr \<lparr>ip = ip_int, scope_id = scope\<rparr>))"

subsection \<open>Printing an address\<close>

text \<open>
  The scan of \<open>_compress_hextets\<close>: the start and length of the current and of the best
  run of \<open>'0'\<close> hextets. The start \<open>-1\<close> of the source (no run) is \<open>None\<close> here.
\<close>

record run_scan =
  best_doublecolon_start :: "nat option"
  best_doublecolon_len :: nat
  doublecolon_start :: "nat option"
  doublecolon_len :: nat

definition scan_hextet :: "run_scan \<Rightarrow> nat \<times> pystr \<Rightarrow> run_scan" where
  "scan_hextet st ih =
     (case ih of (index, hextet) \<Rightarrow>
        if hextet = [48] then
          (let len' = doublecolon_len st + 1;
               start' = (if doublecolon_start st = None then Some index
                         else doublecolon_start st)
           in if len' > best_doublecolon_len st
              then \<lparr>best_doublecolon_start = start', best_doublecolon_len = len',
                    doublecolon_start = start', doublecolon_len = len'\<rparr>
              else st\<lparr>doublecolon_start := start', doublecolon_len := len'\<rparr>)
        else st\<lparr>doublecolon_start := None, doublecolon_len := 0\<rparr>)"

definition compress_hextets :: "pystr list \<Rightarrow> pystr list" where
  "compress_hextets hextets =
     (let st = foldl scan_hextet
                 \<lparr>best_doublecolon_start = None, best_doublecolon_len = 0,
                  doublecolon_start = None, doublecolon_len = 0\<rparr>
                 (zip [0 ..< length hextets] hextets)
      in if best_doublecolon_len st > 1 then
           (let start = the (best_doublecolon_start st);
                end = start + best_doublecolon_len st;
                hextets1 = (if end = length hextets then hextets @ [[]] else hextets);
                hextets2 = take start hextets1 @ [[]] @ drop end hextets1
            in if start = 0 then [] # hextets2 else hextets2)
         else hextets)"

text \<open>The hextets of \<open>'%032x' % ip_int\<close>: the slices \<open>hex_str[x:x+4]\<close> for x = 0, 4, .., 28.\<close>

definition hex_groups :: "nat \<Rightarrow> pystr list" where
  "hex_groups ip_int =
     (let hex_str = zfill 32 (hex_of ip_int)
      in map (\<lambda>x. take 4 (drop x hex_str)) [0, 4, 8, 12, 16, 20, 24, 28])"

text \<open>\<open>['%x' % int(g, 16) for g in groups]\<close>, failing where \<open>int\<close> does.\<close>

fun short_hextets :: "pystr list \<Rightarrow> error + pystr list" where
  "short_hextets [] = Inr []"
| "short_hextets (g # gs) =
     (case py_int g 16 of
        Inl e \<Rightarrow> Inl e
      | Inr h \<Rightarrow> (case short_hextets gs of Inl e \<Rightarrow> Inl e | Inr hs \<Rightarrow> Inr (hex_of h # hs)))"

definition string_from_ip_int :: "nat \<Rightarrow> error + pystr" where
  "string_from_ip_int ip_int =
     (if ip_int > 2 ^ 128 - 1 then Inl ValueError
      else case short_hextets (hex_groups ip_int) of
        Inl e \<Rightarrow> Inl e
      | Inr hextets \<Rightarrow> Inr (join 58 (compress_hextets hextets)))"

text \<open>\<open>IPv6Address.__str__\<close>: the compressed form, then \<open>'%'\<close> and the zone if there is one.\<close>

definition str_of_address :: "ipv6_address \<Rightarrow> error + pystr" where
  "str_of_address a =
     (case string_from_ip_int (ip a) of
        Inl e \<Rightarrow> Inl e
      | Inr ip_str \<Rightarrow>
          (case scope_id a of
             None \<Rightarrow> Inr ip_str
           | Some scope \<Rightarrow> if scope \<noteq> [] then Inr (ip_str @ 37 # scope) else Inr ip_str))"

text \<open>
  \<open>exploded\<close>, that is \<open>_explode_shorthand_ip_string\<close> for an \<open>IPv6Address\<close>: it prints
  the address with \<open>str(self)\<close>, parses that text again with \<open>_ip_int_from_string\<close>,
  which knows no zone, and joins the eight groups of four digits.
\<close>

definition exploded :: "ipv6_address \<Rightarrow> error + pystr" where
  "exploded a =
     (case str_of_address a of
        Inl e \<Rightarrow> Inl e
      | Inr ip_str \<Rightarrow>
          (case v6_ip_int_from_string ip_str of
             Inl e \<Rightarrow> Inl e
           | Inr ip_int \<Rightarrow> Inr (join 58 (hex_groups ip_int))))"

section \<open>The Canonicalizer\<close>

definition ipv6_to_canonical :: "pystr \<Rightarrow> error + pystr" where
  "ipv6_to_canonical addr_str =
     (case IPv6Address (strip addr_str) of
        Inl e \<Rightarrow> Inl e
      | Inr addr \<Rightarrow> (case exploded addr of Inl e \<Rightarrow> Inl e | Inr s \<Rightarrow> Inr (lower s)))"

section \<open>Files\<close>

text \<open>
  A text file holds its decoded text. Reading it with \<open>for line in f\<close> (universal
  newlines) turns \<open>'\r\n'\<close> and \<open>'\r'\<close> into \<open>'\n'\<close> and yields the lines with their
  terminator; only the last line may lack one.
\<close>

fun universal_newlines :: "pystr \<Rightarrow> pystr" where
  "universal_newlines [] = []"
| "universal_newlines [c] = [if c = 13 then 10 else c]"
| "universal_newlines (c # d # cs) =
     (if c = 13 \<and> d = 10 then 10 # universal_newlines cs
      else if c = 13 then 10 # universal_newlines (d # cs)
      else c # universal_newlines (d # cs))"

fun lines_from :: "pystr \<Rightarrow> pystr \<Rightarrow> pystr list" where
  "lines_from cur [] = (if cur = [] then [] else [cur])"
| "lines_from cur (c # cs) =
     (if c = 10 then (cur @ [10]) # lines_from [] cs else lines_from (cur @ [c]) cs)"

definition readlines :: "pystr \<Rightarrow> pystr list" where
  "readlines content = lines_from [] (universal_newlines content)"

text \<open>The UTF-8 bytes of a code point, and \<open>str.encode()\<close>, which rejects surrogates.\<close>

definition utf8_char :: "nat \<Rightarrow> nat list" where
  "utf8_char c =
     (if c < 128 then [c]
      else if c < 2048 then [192 + c div 64, 128 + c mod 64]
      else if c < 65536 then [224 + c div 4096, 128 + (c div 64) mod 64, 128 + c mod 64]
      else [240 + c div 262144, 128 + (c div 4096) mod 64, 128 + (c div 64) mod 64,
            128 + c mod 64])"

definition encode :: "pystr \<Rightarrow> error + nat list" where
  "encode s =
     (if \<exists>c \<in> set s. 55296 \<le> c \<and> c \<le> 57343 then Inl UnicodeEncodeError
      else Inr (concat (map utf8_char s)))"

text \<open>
  \<open>os.path.getsize\<close> of a file that holds the text in UTF-8, as every spill file does:
  the program writes them with \<open>encoding='utf-8'\<close>.
\<close>

definition getsize :: "pystr \<Rightarrow> nat" where
  "getsize content = length (concat (map utf8_char content))"

text \<open>
  The file system: regular files by path (the input and the output file), and the
  directories that hold spill files, each a map from entry name to text. A path of
  \<open>files\<close> never names an entry of one of \<open>dirs\<close>: the only directory the program
  writes spill files to is the fresh one that \<open>tempfile\<close> has just created.
\<close>

type_synonym dir = "pystr \<rightharpoonup> pystr"

record world =
  files :: "pystr \<rightharpoonup> pystr"
  dirs :: "pystr \<rightharpoonup> dir"

text \<open>
  What the program takes from its environment: \<open>os.cpu_count()\<close>; \<open>hashlib.md5\<close> as a
  function from bytes to the 128-bit digest; which operations on spill files succeed
  (the others raise \<open>OSError\<close>); the order in which \<open>as_completed\<close> yields the futures
  it is given; the names \<open>tempfile\<close> tries for a new directory; \<open>os.path.getsize\<close> of
  the input file, the number of its bytes on disk, which the text decoded with
  \<open>errors='replace'\<close> does not determine; and whether opening the output file and
  writing to it succeed.
\<close>

datatype io_op = CreateSpill pystr | OpenSpill pystr | WriteSpill pystr | ReadSpill pystr

record env =
  cpu_count :: "int option"
  md5 :: "nat list \<Rightarrow> 128 word"
  io_ok :: "io_op \<Rightarrow> bool"
  as_completed :: "pystr list \<Rightarrow> pystr list"
  tmp_names :: "pystr list"
  path_getsize :: "pystr \<Rightarrow> nat"
  open_output_ok :: "pystr \<Rightarrow> bool"
  write_output_ok :: "pystr \<Rightarrow> bool"

section \<open>\<open>count_unique_ipv6.py\<close>\<close>

definition MEMORY_MODE_THRESHOLD :: nat where
  "MEMORY_MODE_THRESHOLD = 50 * 1024 * 1024"

definition NUM_PARTITIONS :: nat where
  "NUM_PARTITIONS = 4096"

definition CHUNK_WRITE_SIZE :: nat where
  "CHUNK_WRITE_SIZE = 8 * 1024 * 1024"

subsection \<open>\<open>count_unique_in_partition\<close>\<close>

text \<open>The distinct non-blank stripped lines of a text: the \<open>set\<close> both counters build.\<close>

definition stripped_lines :: "pystr \<Rightarrow> pystr list" where
  "stripped_lines content = filter (\<lambda>l. l \<noteq> []) (map strip (readlines content))"

definition count_unique_in_partition :: "env \<Rightarrow> dir \<Rightarrow> pystr \<Rightarrow> error + nat" where
  "count_unique_in_partition env d partition_path =
     (if \<not> io_ok env (ReadSpill partition_path) then Inl OSError
      else case d partition_path of
        None \<Rightarrow> Inl OSError
      | Some content \<Rightarrow> Inr (card (set (stripped_lines content))))"

subsection \<open>\<open>count_unique_basic\<close>\<close>

fun basic_loop :: "pystr list \<Rightarrow> pystr set \<Rightarrow> error + pystr set" where
  "basic_loop [] unique = Inr unique"
| "basic_loop (line # rest) unique =
     (let line = strip line in
      if line \<noteq> [] then
        (case ipv6_to_canonical line of
           Inl e \<Rightarrow> Inl e
         | Inr canonical \<Rightarrow> basic_loop rest (insert canonical unique))
      else basic_loop rest unique)"

definition count_unique_basic :: "world \<Rightarrow> pystr \<Rightarrow> error + nat" where
  "count_unique_basic w input_path =
     (case files w input_path of
        None \<Rightarrow> Inl OSError
      | Some content \<Rightarrow>
          (case basic_loop (readlines content) {} of
             Inl e \<Rightarrow> Inl e
           | Inr unique \<Rightarrow> Inr (card unique)))"

subsection \<open>\<open>count_unique_optimized\<close>\<close>

text \<open>\<open>f"part_{i:04d}.txt"\<close>, the entry of \<open>temp_dir\<close> that \<open>os.path.join\<close> names.\<close>

definition partition_name :: "nat \<Rightarrow> pystr" where
  "partition_name i = py ''part_'' @ zfill 4 (dec_of i) @ py ''.txt''"

definition partition_paths :: "pystr list" where
  "partition_paths = map partition_name [0 ..< NUM_PARTITIONS]"

text \<open>\<open>enumerate\<close>.\<close>

definition enumerate_list :: "'a list \<Rightarrow> (nat \<times> 'a) list" where
  "enumerate_list xs = zip [0 ..< length xs] xs"

text \<open>Lines 76-77: every partition file is created empty (or truncated).\<close>

fun create_files :: "env \<Rightarrow> pystr list \<Rightarrow> dir \<Rightarrow> (error + unit) \<times> dir" where
  "create_files env [] d = (Inr (), d)"
| "create_files env (p # ps) d =
     (if io_ok env (CreateSpill p) then create_files env ps (d(p \<mapsto> []))
      else (Inl OSError, d))"

text \<open>
  Line 80: every partition file is opened for appending, which creates a missing file.
  A handle is modelled by the name of its file.
\<close>

fun open_files :: "env \<Rightarrow> pystr list \<Rightarrow> dir \<Rightarrow> (error + pystr list) \<times> dir" where
  "open_files env [] d = (Inr [], d)"
| "open_files env (p # ps) d =
     (if io_ok env (OpenSpill p) then
        (case open_files env ps (d(p \<mapsto> (case d p of None \<Rightarrow> [] | Some c \<Rightarrow> c))) of
           (Inl e, d') \<Rightarrow> (Inl e, d')
         | (Inr fhs, d') \<Rightarrow> (Inr (p # fhs), d'))
      else (Inl OSError, d))"

text \<open>\<open>fh.writelines(lines)\<close> on a file opened for appending.\<close>

definition writelines :: "dir \<Rightarrow> pystr \<Rightarrow> pystr list \<Rightarrow> dir" where
  "writelines d fh lines = d(fh \<mapsto> (case d fh of None \<Rightarrow> [] | Some c \<Rightarrow> c) @ concat lines)"

text \<open>Lines 92-93: the partition of a canonical string.\<close>

definition hexdigest :: "128 word \<Rightarrow> pystr" where
  "hexdigest digest = zfill 32 (hex_of (unat digest))"

definition partition_index :: "env \<Rightarrow> pystr \<Rightarrow> error + nat" where
  "partition_index env canonical =
     (case encode canonical of
        Inl e \<Rightarrow> Inl e
      | Inr bytes \<Rightarrow>
          (case py_int (take 8 (hexdigest (md5 env bytes))) 16 of
             Inl e \<Rightarrow> Inl e
           | Inr h \<Rightarrow> Inr (h mod NUM_PARTITIONS)))"

text \<open>The state of the partitioning loop: \<open>buffer\<close> and \<open>buffer_size\<close>.\<close>

record buffers =
  buffer :: "pystr list list"
  buffer_size :: nat

text \<open>
  Lines 98-102: every non-empty buffer is written to its file and cleared. A write
  that fails leaves the buffers written before it cleared.
\<close>

fun flush_buffers ::
  "env \<Rightarrow> (nat \<times> pystr) list \<Rightarrow> pystr list list \<Rightarrow> dir \<Rightarrow> (error + pystr list list) \<times> dir" where
  "flush_buffers env [] buf d = (Inr buf, d)"
| "flush_buffers env ((i, fh) # rest) buf d =
     (if buf ! i \<noteq> [] then
        (if io_ok env (WriteSpill fh)
         then flush_buffers env rest (buf[i := []]) (writelines d fh (buf ! i))
         else (Inl OSError, d))
      else flush_buffers env rest buf d)"

text \<open>Lines 104-106: the last flush writes the buffers and leaves them as they are.\<close>

fun final_flush ::
  "env \<Rightarrow> (nat \<times> pystr) list \<Rightarrow> pystr list list \<Rightarrow> dir \<Rightarrow> (error + unit) \<times> dir" where
  "final_flush env [] buf d = (Inr (), d)"
| "final_flush env ((i, fh) # rest) buf d =
     (if buf ! i \<noteq> [] then
        (if io_ok env (WriteSpill fh)
         then final_flush env rest buf (writelines d fh (buf ! i))
         else (Inl OSError, d))
      else final_flush env rest buf d)"

text \<open>Lines 87-102: the body of the loop for one line of the input.\<close>

definition partition_line ::
  "env \<Rightarrow> pystr list \<Rightarrow> pystr \<Rightarrow> buffers \<Rightarrow> dir \<Rightarrow> (error + buffers) \<times> dir" where
  "partition_line env partition_files line st d =
     (let line = strip line in
      if line = [] then (Inr st, d)
      else case ipv6_to_canonical line of
        Inl e \<Rightarrow> (Inl e, d)
      | Inr canonical \<Rightarrow>
          (case partition_index env canonical of
             Inl e \<Rightarrow> (Inl e, d)
           | Inr idx \<Rightarrow>
               (let buf = (buffer st)[idx := buffer st ! idx @ [canonical @ [10]]];
                    size = buffer_size st + (length canonical + 1)
                in if size \<ge> CHUNK_WRITE_SIZE then
                     (case flush_buffers env (enumerate_list partition_files) buf d of
                        (Inl e, d') \<Rightarrow> (Inl e, d')
                      | (Inr buf', d') \<Rightarrow> (Inr \<lparr>buffer = buf', buffer_size = 0\<rparr>, d'))
                   else (Inr \<lparr>buffer = buf, buffer_size = size\<rparr>, d))))"

fun partition_loop ::
  "env \<Rightarrow> pystr list \<Rightarrow> pystr list \<Rightarrow> buffers \<Rightarrow> dir \<Rightarrow> (error + buffers) \<times> dir" where
  "partition_loop env partition_files [] st d = (Inr st, d)"
| "partition_loop env partition_files (line # rest) st d =
     (case partition_line env partition_files line st d of
        (Inl e, d') \<Rightarrow> (Inl e, d')
      | (Inr st', d') \<Rightarrow> partition_loop env partition_files rest st' d')"

text \<open>
  Lines 80-109, phase 1: the files are opened, the input is read line by line, and
  what is left in the buffers is written at the end. \<open>close\<close> changes no content.
\<close>

definition partition_phase :: "env \<Rightarrow> pystr option \<Rightarrow> dir \<Rightarrow> (error + unit) \<times> dir" where
  "partition_phase env input d =
     (case open_files env partition_paths d of
        (Inl e, d') \<Rightarrow> (Inl e, d')
      | (Inr partition_files, d') \<Rightarrow>
          (case input of
             None \<Rightarrow> (Inl OSError, d')
           | Some content \<Rightarrow>
               (case partition_loop env partition_files (readlines content)
                       \<lparr>buffer = replicate NUM_PARTITIONS [], buffer_size = 0\<rparr> d' of
                  (Inl e, d'') \<Rightarrow> (Inl e, d'')
                | (Inr st, d'') \<Rightarrow>
                    final_flush env (enumerate_list partition_files) (buffer st) d'')))"

text \<open>Lines 118-119: the results are added in the order the futures complete.\<close>

fun sum_results :: "env \<Rightarrow> dir \<Rightarrow> pystr list \<Rightarrow> nat \<Rightarrow> error + nat" where
  "sum_results env d [] total_so_far = Inr total_so_far"
| "sum_results env d (p # ps) total_so_far =
     (case count_unique_in_partition env d p of
        Inl e \<Rightarrow> Inl e
      | Inr n \<Rightarrow> sum_results env d ps (total_so_far + n))"

text \<open>
  Lines 112-121, phase 2. \<open>ProcessPoolExecutor\<close> rejects a number of workers that is
  not positive; one task is submitted for every partition file that is not empty.
\<close>

definition count_phase :: "env \<Rightarrow> dir \<Rightarrow> int \<Rightarrow> error + nat" where
  "count_phase env d num_workers =
     (if num_workers \<le> 0 then Inl ValueError
      else let futures = filter (\<lambda>p. case d p of None \<Rightarrow> False | Some c \<Rightarrow> getsize c > 0)
                           partition_paths
           in sum_results env d (as_completed env futures) 0)"

text \<open>Line 71: \<open>num_workers or max(1, os.cpu_count() - 1)\<close>.\<close>

definition resolve_workers :: "env \<Rightarrow> int \<Rightarrow> error + int" where
  "resolve_workers env num_workers =
     (if num_workers \<noteq> 0 then Inr num_workers
      else case cpu_count env of
        None \<Rightarrow> Inl TypeError
      | Some n \<Rightarrow> Inr (max 1 (n - 1)))"

text \<open>The function on the directory \<open>temp_dir\<close> names and on the input file, if any.\<close>

definition optimized_in_dir ::
  "env \<Rightarrow> pystr option \<Rightarrow> dir \<Rightarrow> int \<Rightarrow> (error + nat) \<times> dir" where
  "optimized_in_dir env input d num_workers =
     (case resolve_workers env num_workers of
        Inl e \<Rightarrow> (Inl e, d)
      | Inr num_workers \<Rightarrow>
          (case create_files env partition_paths d of
             (Inl e, d1) \<Rightarrow> (Inl e, d1)
           | (Inr u, d1) \<Rightarrow>
               (case partition_phase env input d1 of
                  (Inl e, d2) \<Rightarrow> (Inl e, d2)
                | (Inr u, d2) \<Rightarrow> (count_phase env d2 num_workers, d2))))"

definition count_unique_optimized ::
  "env \<Rightarrow> world \<Rightarrow> pystr \<Rightarrow> pystr \<Rightarrow> int \<Rightarrow> (error + nat) \<times> world" where
  "count_unique_optimized env w input_path temp_dir num_workers =
     (case dirs w temp_dir of
        None \<Rightarrow>
          (case resolve_workers env num_workers of
             Inl e \<Rightarrow> (Inl e, w)
           | Inr n \<Rightarrow> (Inl OSError, w))
      | Some d \<Rightarrow>
          (case optimized_in_dir env (files w input_path) d num_workers of
             (r, d') \<Rightarrow> (r, w\<lparr>dirs := (dirs w)(temp_dir \<mapsto> d')\<rparr>)))"

subsection \<open>\<open>main\<close>\<close>

record args =
  input_file :: pystr
  output_file :: pystr
  optimized :: bool
  basic :: bool
  workers :: int

text \<open>
  \<open>tempfile.mkdtemp\<close>: the first of the names it tries that does not exist yet becomes
  a new, empty directory.
\<close>

definition mkdtemp :: "env \<Rightarrow> world \<Rightarrow> error + pystr" where
  "mkdtemp env w =
     (case find (\<lambda>p. dirs w p = None \<and> files w p = None) (tmp_names env) of
        None \<Rightarrow> Inl OSError
      | Some p \<Rightarrow> Inr p)"

text \<open>
  Lines 148-153: \<open>with tempfile.TemporaryDirectory(...) as tmpdir\<close> around the call.
  Leaving the block removes the directory with everything in it, whether the call
  returned or raised.
\<close>

definition with_temporary_directory :: "env \<Rightarrow> args \<Rightarrow> world \<Rightarrow> (error + nat) \<times> world" where
  "with_temporary_directory env a w =
     (case mkdtemp env w of
        Inl e \<Rightarrow> (Inl e, w)
      | Inr tmpdir \<Rightarrow>
          (case count_unique_optimized env (w\<lparr>dirs := (dirs w)(tmpdir \<mapsto> Map.empty)\<rparr>)
                  (input_file a) tmpdir (workers a) of
             (r, w') \<Rightarrow> (r, w'\<lparr>dirs := (dirs w')(tmpdir := None)\<rparr>)))"

text \<open>
  Lines 157-158: the count is written to the output file. When \<open>open(output_path, 'w')\<close>
  fails the file system is as before; when it succeeds the file is truncated, and it
  stays empty if the write fails.
\<close>

definition write_output :: "env \<Rightarrow> world \<Rightarrow> pystr \<Rightarrow> nat \<Rightarrow> (error + unit) \<times> world" where
  "write_output env w output_path cnt =
     (if \<not> open_output_ok env output_path then (Inl OSError, w)
      else if \<not> write_output_ok env output_path
      then (Inl OSError, w\<lparr>files := (files w)(output_path \<mapsto> [])\<rparr>)
      else (Inr (), w\<lparr>files := (files w)(output_path \<mapsto> dec_of cnt)\<rparr>))"

text \<open>
  Lines 139-158, \<open>main\<close> once the arguments are parsed: the input must be a file;
  \<open>--basic\<close> is looked at first, then \<open>--optimized\<close> and the size of the input file.
\<close>

definition main :: "env \<Rightarrow> args \<Rightarrow> world \<Rightarrow> (error + unit) \<times> world" where
  "main env a w =
     (let input_path = input_file a; output_path = output_file a in
      if files w input_path = None then (Inl SystemExit, w)
      else case (if basic a then (count_unique_basic w input_path, w)
                 else if optimized a \<or> path_getsize env input_path > MEMORY_MODE_THRESHOLD
                 then with_temporary_directory env a w
                 else (count_unique_basic w input_path, w)) of
        (Inl e, w') \<Rightarrow> (Inl e, w')
      | (Inr cnt, w') \<Rightarrow> write_output env w' output_path cnt)"

section \<open>Notions used in the statements and proofs\<close>

text \<open>Lower-case hexadecimal digits, and the characters of a canonical form.\<close>

definition hexl :: "nat \<Rightarrow> bool" where
  "hexl c \<longleftrightarrow> (48 \<le> c \<and> c \<le> 57) \<or> (97 \<le> c \<and> c \<le> 102)"

definition canon_char :: "nat \<Rightarrow> bool" where
  "canon_char c \<longleftrightarrow> hexl c \<or> c = 58"

text \<open>The text of a spill file that holds the given lines, each with its terminator.\<close>

definition spill_text :: "pystr list \<Rightarrow> pystr" where
  "spill_text cs = concat (map (\<lambda>c. c @ [10]) cs)"

text \<open>The number that a string of digits denotes: what \<open>py_int\<close> returns on one.\<close>

definition digits_val :: "nat \<Rightarrow> pystr \<Rightarrow> nat" where
  "digits_val base s = foldl (\<lambda>a c. a * base + the (digit_value base c)) 0 s"

text \<open>The strings the canonicalizer returns.\<close>

definition canonical_form :: "pystr \<Rightarrow> bool" where
  "canonical_form c \<longleftrightarrow> (\<exists>x. ipv6_to_canonical x = Inr c)"

text \<open>No operation on a spill file fails.\<close>

definition all_ok :: "env \<Rightarrow> bool" where
  "all_ok env \<longleftrightarrow> (\<forall>op. io_ok env op)"

text \<open>\<open>as_completed\<close> yields every future it is given exactly once, in some order.\<close>

definition fair_schedule :: "env \<Rightarrow> bool" where
  "fair_schedule env \<longleftrightarrow> (\<forall>ps. mset (as_completed env ps) = mset ps)"

text \<open>The text of an entry of a directory; empty when the entry does not exist.\<close>

definition file_text :: "dir \<Rightarrow> pystr \<Rightarrow> pystr" where
  "file_text d p = (case d p of None \<Rightarrow> [] | Some c \<Rightarrow> c)"

text \<open>The canonical forms of the non-blank lines in the order of the file, or the error of
  the first line that the canonicalizer rejects: what both loops compute line by line.\<close>

fun canon_lines :: "pystr list \<Rightarrow> error + pystr list" where
  "canon_lines [] = Inr []"
| "canon_lines (line # rest) =
     (if strip line = [] then canon_lines rest
      else case ipv6_to_canonical (strip line) of
        Inl e \<Rightarrow> Inl e
      | Inr c \<Rightarrow> (case canon_lines rest of Inl e \<Rightarrow> Inl e | Inr cs \<Rightarrow> Inr (c # cs)))"

text \<open>The invariant of the partitioning loop: the spill file of every partition exists, and
  together with the buffer of the partition it holds, in the order of the input, the
  canonical forms read so far whose index is that partition.\<close>

definition spill_inv :: "env \<Rightarrow> pystr list \<Rightarrow> pystr list list \<Rightarrow> dir \<Rightarrow> bool" where
  "spill_inv env cs buf d \<longleftrightarrow>
     length buf = NUM_PARTITIONS \<and>
     (\<forall>i < NUM_PARTITIONS. d (partition_name i) \<noteq> None \<and>
        file_text d (partition_name i) @ concat (buf ! i) =
          spill_text (filter (\<lambda>c. partition_index env c = Inr i) cs))"

text \<open>The number of distinct canonical forms among the lines of a text.\<close>

definition distinct_count :: "pystr \<Rightarrow> error + nat" where
  "distinct_count text =
     (case canon_lines (readlines text) of
        Inl e \<Rightarrow> Inl e
      | Inr cs \<Rightarrow> Inr (card (set cs)))"

text \<open>The canonical forms of the non-blank lines of a text all of whose lines are valid.\<close>

definition canonical_lines :: "pystr \<Rightarrow> pystr list" where
  "canonical_lines body =
     map (\<lambda>l. case ipv6_to_canonical l of Inl e \<Rightarrow> [] | Inr c \<Rightarrow> c) (stripped_lines body)"

text \<open>Hexadecimal digits of a fixed width, most significant first.\<close>

fun pad_hex :: "nat \<Rightarrow> nat \<Rightarrow> pystr" where
  "pad_hex 0 n = []"
| "pad_hex (Suc k) n = pad_hex k (n div 16) @ [digit_char (n mod 16)]"

text \<open>The bytes that the buffers hold.\<close>

definition buffered_bytes :: "pystr list list \<Rightarrow> nat" where
  "buffered_bytes buf = sum_list (map (\<lambda>b. sum_list (map getsize b)) buf)"

definition buffers_inv :: "buffers \<Rightarrow> bool" where
  "buffers_inv st \<longleftrightarrow>
     length (buffer st) = NUM_PARTITIONS \<and> buffer_size st = buffered_bytes (buffer st) \<and>
     buffer_size st < CHUNK_WRITE_SIZE"

text \<open>The digits of a number in base 65536, most significant first: its hextets.\<close>

fun groups16 :: "nat \<Rightarrow> nat \<Rightarrow> nat list" where
  "groups16 0 v = []"
| "groups16 (Suc k) v = groups16 k (v div 65536) @ [v mod 65536]"

text \<open>What the scan of \<open>_compress_hextets\<close> knows after \<open>n\<close> hextets: the current run
  of zeros ends at \<open>n\<close>, and the best run is a run of zeros among the first \<open>n\<close>.\<close>

definition scan_inv :: "pystr list \<Rightarrow> nat \<Rightarrow> run_scan \<Rightarrow> bool" where
  "scan_inv hs n st \<longleftrightarrow>
     doublecolon_len st \<le> n \<and>
     (\<forall>j. n - doublecolon_len st \<le> j \<and> j < n \<longrightarrow> hs ! j = [48]) \<and>
     doublecolon_start st =
       (if doublecolon_len st = 0 then None else Some (n - doublecolon_len st)) \<and>
     (best_doublecolon_len st = 0 \<or>
      (\<exists>bs. best_doublecolon_start st = Some bs \<and> bs + best_doublecolon_len st \<le> n \<and>
            (\<forall>j. bs \<le> j \<and> j < bs + best_doublecolon_len st \<longrightarrow> hs ! j = [48])))"

section \<open>Example inputs\<close>

text \<open>An environment in which every operation on a file succeeds, with a stand-in
  for MD5, and file systems that hold one input file.\<close>

definition example_env :: env where
  "example_env = \<lparr>cpu_count = Some 4, md5 = (\<lambda>bytes. word_of_nat (sum_list bytes)),
     io_ok = (\<lambda>op. True), as_completed = rev, tmp_names = [py ''/tmp/ipv6_count_k3x9''],
     path_getsize = (\<lambda>p. 12), open_output_ok = (\<lambda>p. True), write_output_ok = (\<lambda>p. True)\<rparr>"

definition example_world :: world where
  "example_world = \<lparr>files = [py ''in.txt'' \<mapsto> py ''2001:db0::30''], dirs = Map.empty\<rparr>"

definition example_args :: args where
  "example_args = \<lparr>input_file = py ''in.txt'', output_file = py ''out.txt'',
       optimized = True, basic = True, workers = 0\<rparr>"

definition example_tmp :: pystr where
  "example_tmp = py ''/tmp/ipv6_count_k3x9''"

definition example_run_world :: world where
  "example_run_world =
     \<lparr>files = [py ''in.txt'' \<mapsto> py ''2001:db0::30''], dirs = [example_tmp \<mapsto> Map.empty]\<rparr>"

definition blank_world :: world where
  "blank_world =
     \<lparr>files = [py ''in.txt'' \<mapsto> py ''  '' @ [10, 13, 10, 9]], dirs = [example_tmp \<mapsto> Map.empty]\<rparr>"

definition empty_world :: world where
  "empty_world = \<lparr>files = [py ''in.txt'' \<mapsto> []], dirs = [example_tmp \<mapsto> Map.empty]\<rparr>"

definition bad_world :: world where
  "bad_world = \<lparr>files = [py ''in.txt'' \<mapsto> py ''::1'' @ [10] @ py ''zz''], dirs = Map.empty\<rparr>"

text \<open>A canonical address, an input file that holds it on 209717 lines of 40 bytes (209716
  lines reach the threshold of 8 MiB, 209715 do not), and a directory in which every
  spill file exists and is empty.\<close>

definition example_address :: pystr where
  "example_address = py ''2001:0db0:0000:0000:0000:0000:0000:0030''"

definition example_long_text :: pystr where
  "example_long_text = concat (replicate 209717 (example_address @ [10]))"

definition example_spill_dir :: dir where
  "example_spill_dir = (\<lambda>p. if p \<in> set partition_paths then Some [] else None)"

section \<open>Lemmas\<close>

lemma hexl_digit_char: "d < 16 \<Longrightarrow> hexl (digit_char d)"
  by (auto simp: hexl_def digit_char_def)

lemma hex_of_chars: "c \<in> set (hex_of n) \<Longrightarrow> hexl c"
proof (induction n arbitrary: c rule: hex_of.induct)
  case (1 n)
  show ?case
  proof (cases "n < 16")
    case True
    with "1.prems" show ?thesis by (simp add: hex_of.simps[of n] hexl_digit_char)
  next
    case False
    with "1.prems" have "c \<in> set (hex_of (n div 16)) \<or> c = digit_char (n mod 16)"
      by (auto simp add: hex_of.simps[of n])
    with False "1.IH" show ?thesis by (auto simp: hexl_digit_char)
  qed
qed

lemma zfill_chars: "c \<in> set (zfill w s) \<Longrightarrow> c = 48 \<or> c \<in> set s"
  by (auto simp: zfill_def)

lemma hex_groups_chars: "g \<in> set (hex_groups n) \<Longrightarrow> c \<in> set g \<Longrightarrow> hexl c"
proof -
  assume g: "g \<in> set (hex_groups n)" and c: "c \<in> set g"
  from g obtain x where "g = take 4 (drop x (zfill 32 (hex_of n)))"
    unfolding hex_groups_def Let_def set_map by blast
  with c have "c \<in> set (zfill 32 (hex_of n))"
    by (meson in_set_dropD in_set_takeD)
  then have "c = 48 \<or> c \<in> set (hex_of n)" by (rule zfill_chars)
  then show ?thesis
  proof
    assume "c = 48" then show ?thesis by (simp add: hexl_def)
  next
    assume "c \<in> set (hex_of n)" then show ?thesis by (rule hex_of_chars)
  qed
qed

lemma join_chars: "c \<in> set (join sep ps) \<Longrightarrow> c = sep \<or> (\<exists>p \<in> set ps. c \<in> set p)"
  by (induction sep ps rule: join.induct) auto

lemma join_has_sep: "2 \<le> length ps \<Longrightarrow> sep \<in> set (join sep ps)"
  by (induction sep ps rule: join.induct) auto

lemma length_hex_groups: "length (hex_groups n) = 8"
  by (simp add: hex_groups_def Let_def)

lemma lower_canon: "\<forall>c \<in> set s. canon_char c \<Longrightarrow> lower s = s"
  by (auto simp: lower_def canon_char_def hexl_def intro!: map_idI)

lemma exploded_chars:
  assumes "exploded a = Inr s"
  shows "(\<forall>c \<in> set s. canon_char c) \<and> 58 \<in> set s"
proof -
  from assms obtain n where s: "s = join 58 (hex_groups n)"
    by (auto simp: exploded_def split: sum.splits)
  have "58 \<in> set s" unfolding s by (rule join_has_sep) (simp add: length_hex_groups)
  moreover have "\<forall>c \<in> set s. canon_char c"
    unfolding s canon_char_def using join_chars hex_groups_chars by blast
  ultimately show ?thesis by simp
qed

lemma canonical_chars:
  assumes "ipv6_to_canonical x = Inr c"
  shows "(\<forall>ch \<in> set c. canon_char ch) \<and> 58 \<in> set c"
proof -
  from assms obtain a s where "exploded a = Inr s" and c: "c = lower s"
    by (auto simp: ipv6_to_canonical_def split: sum.splits)
  then have s: "(\<forall>ch \<in> set s. canon_char ch) \<and> 58 \<in> set s" by (simp add: exploded_chars)
  then have "lower s = s" by (simp add: lower_canon)
  with s c show ?thesis by simp
qed

lemma canon_char_facts:
  "canon_char c \<Longrightarrow> \<not> isspace c \<and> c \<noteq> 10 \<and> c \<noteq> 13 \<and> c < 128 \<and> \<not> (55296 \<le> c \<and> c \<le> 57343)"
  by (auto simp: canon_char_def hexl_def isspace_def)

lemma strip_id: "s \<noteq> [] \<Longrightarrow> \<not> isspace (hd s) \<Longrightarrow> \<not> isspace (last s) \<Longrightarrow> strip s = s"
proof -
  assume s: "s \<noteq> []" and h: "\<not> isspace (hd s)" and l: "\<not> isspace (last s)"
  from s h have 1: "dropWhile isspace s = s" by (cases s) auto
  from s l have "dropWhile isspace (rev s) = rev s" by (cases "rev s") (auto simp: last_rev hd_rev)
  with 1 show ?thesis by (simp add: strip_def)
qed

lemma strip_all_space: "\<forall>c \<in> set s. isspace c \<Longrightarrow> strip s = []"
proof -
  assume a: "\<forall>c \<in> set s. isspace c"
  then have "dropWhile isspace s = []" by (induction s) auto
  then show ?thesis by (simp only: strip_def rev.simps dropWhile.simps)
qed

lemma strip_append_space:
  "\<forall>c \<in> set t. isspace c \<Longrightarrow> s \<noteq> [] \<Longrightarrow> \<not> isspace (hd s) \<Longrightarrow> \<not> isspace (last s) \<Longrightarrow>
   strip (s @ t) = s"
proof -
  assume t: "\<forall>c \<in> set t. isspace c" and s: "s \<noteq> []" and h: "\<not> isspace (hd s)"
    and l: "\<not> isspace (last s)"
  from s h have 1: "dropWhile isspace (s @ t) = s @ t" by (cases s) auto
  from t have "dropWhile isspace (rev t @ rev s) = dropWhile isspace (rev s)"
    by (intro dropWhile_append2) simp
  also from s l have "\<dots> = rev s" by (cases "rev s") (auto simp: last_rev hd_rev)
  finally show ?thesis using 1 by (simp add: strip_def)
qed

lemma strip_canonical:
  assumes "ipv6_to_canonical x = Inr c"
  shows "c \<noteq> []" and "strip (c @ [10]) = c" and "strip c = c"
proof -
  from canonical_chars[OF assms] have ch: "\<forall>ch \<in> set c. canon_char ch" and "58 \<in> set c" by auto
  then show ne: "c \<noteq> []" by auto
  from ne ch have "\<not> isspace (hd c)" "\<not> isspace (last c)"
    using canon_char_facts by (metis hd_in_set, metis last_in_set)
  with ne show "strip (c @ [10]) = c" "strip c = c"
    by (simp_all add: strip_append_space strip_id isspace_def)
qed

lemma universal_newlines_id: "13 \<notin> set s \<Longrightarrow> universal_newlines s = s"
  by (induction s rule: universal_newlines.induct) auto

lemma lines_from_line:
  "10 \<notin> set c \<Longrightarrow> lines_from cur (c @ 10 # rest) = (cur @ c @ [10]) # lines_from [] rest"
  by (induction c arbitrary: cur) auto

lemma lines_from_spill_text:
  "\<forall>c \<in> set cs. 10 \<notin> set c \<Longrightarrow> lines_from [] (spill_text cs) = map (\<lambda>c. c @ [10]) cs"
proof (induction cs)
  case Nil
  then show ?case by (simp add: spill_text_def)
next
  case (Cons c cs)
  then have "lines_from [] (c @ 10 # spill_text cs) = (c @ [10]) # lines_from [] (spill_text cs)"
    using lines_from_line[of c "[]" "spill_text cs"] by simp
  with Cons show ?case by (simp add: spill_text_def)
qed

lemma readlines_spill_text:
  assumes "\<forall>c \<in> set cs. 10 \<notin> set c \<and> 13 \<notin> set c"
  shows "readlines (spill_text cs) = map (\<lambda>c. c @ [10]) cs"
proof -
  from assms have "13 \<notin> set (spill_text cs)" by (auto simp: spill_text_def)
  then have "universal_newlines (spill_text cs) = spill_text cs" by (rule universal_newlines_id)
  with assms show ?thesis by (simp add: readlines_def lines_from_spill_text)
qed

lemma stripped_lines_spill_text:
  assumes "\<forall>c \<in> set cs. canonical_form c"
  shows "stripped_lines (spill_text cs) = cs"
proof -
  have nl: "\<forall>c \<in> set cs. 10 \<notin> set c \<and> 13 \<notin> set c"
    using assms canonical_chars canon_char_facts unfolding canonical_form_def by blast
  have st: "\<forall>c \<in> set cs. strip (c @ [10]) = c \<and> c \<noteq> []"
    using assms strip_canonical unfolding canonical_form_def by blast
  then have "map strip (map (\<lambda>c. c @ [10]) cs) = cs"
    by (simp add: map_idI)
  moreover from st have "filter (\<lambda>l. l \<noteq> []) cs = cs" by (simp add: filter_id_conv)
  ultimately show ?thesis by (simp add: stripped_lines_def readlines_spill_text[OF nl])
qed

lemma digit_value_digit_char: "d < base \<Longrightarrow> base \<le> 16 \<Longrightarrow> digit_value base (digit_char d) = Some d"
  by (auto simp: digit_value_def digit_char_def Let_def)

lemma digits_val_snoc: "digits_val b (s @ [c]) = digits_val b s * b + the (digit_value b c)"
  by (simp add: digits_val_def)

lemma digits_val_hex_of: "digits_val 16 (hex_of n) = n"
proof (induction n rule: hex_of.induct)
  case (1 n)
  show ?case
  proof (cases "n < 16")
    case True
    then show ?thesis by (simp add: hex_of.simps[of n] digits_val_def digit_value_digit_char)
  next
    case False
    with 1 have "digits_val 16 (hex_of (n div 16)) = n div 16" by simp
    with False show ?thesis
      by (simp add: hex_of.simps[of n] digits_val_snoc digit_value_digit_char)
  qed
qed

lemma digits_val_dec_of: "digits_val 10 (dec_of n) = n"
proof (induction n rule: dec_of.induct)
  case (1 n)
  show ?case
  proof (cases "n < 10")
    case True
    then show ?thesis by (simp add: dec_of.simps[of n] digits_val_def digit_value_digit_char)
  next
    case False
    with 1 have "digits_val 10 (dec_of (n div 10)) = n div 10" by simp
    with False show ?thesis
      by (simp add: dec_of.simps[of n] digits_val_snoc digit_value_digit_char)
  qed
qed

lemma foldl_digits_zeros:
  "1 < b \<Longrightarrow> foldl (\<lambda>a c. a * b + the (digit_value b c)) 0 (replicate k 48) = 0"
  by (induction k) (auto simp: digit_value_def)

lemma digits_val_zfill: "1 < b \<Longrightarrow> digits_val b (zfill w s) = digits_val b s"
  by (simp add: digits_val_def zfill_def foldl_digits_zeros)

lemma partition_name_inj: "partition_name i = partition_name j \<Longrightarrow> i = j"
proof -
  assume "partition_name i = partition_name j"
  then have "zfill 4 (dec_of i) = zfill 4 (dec_of j)" by (simp add: partition_name_def)
  then have "digits_val 10 (zfill 4 (dec_of i)) = digits_val 10 (zfill 4 (dec_of j))" by simp
  then show ?thesis by (simp add: digits_val_zfill digits_val_dec_of)
qed

lemma distinct_partition_paths: "distinct partition_paths"
  unfolding partition_paths_def
  by (simp add: distinct_map inj_on_def partition_name_inj)

lemma length_partition_paths: "length partition_paths = NUM_PARTITIONS"
  by (simp add: partition_paths_def)

lemma nth_partition_paths: "i < NUM_PARTITIONS \<Longrightarrow> partition_paths ! i = partition_name i"
  by (simp add: partition_paths_def)

lemma create_files_ok:
  "all_ok env \<Longrightarrow>
   create_files env ps d = (Inr (), (\<lambda>p. if p \<in> set ps then Some [] else d p))"
proof (induction ps arbitrary: d)
  case Nil
  then show ?case by simp
next
  case (Cons p ps)
  from Cons.prems have ok: "io_ok env (CreateSpill p)" by (simp add: all_ok_def)
  have eq: "(\<lambda>q. if q \<in> set ps then Some [] else (d(p \<mapsto> [])) q) =
      (\<lambda>q. if q \<in> set (p # ps) then Some [] else d q)" by auto
  from ok have "create_files env (p # ps) d = create_files env ps (d(p \<mapsto> []))"
    by (simp only: create_files.simps if_True)
  also have "\<dots> = (Inr (), (\<lambda>q. if q \<in> set ps then Some [] else (d(p \<mapsto> [])) q))"
    by (rule Cons.IH[OF Cons.prems])
  finally show ?case by (simp only: eq)
qed

lemma open_files_ok:
  "all_ok env \<Longrightarrow> \<forall>p \<in> set ps. d p \<noteq> None \<Longrightarrow> open_files env ps d = (Inr ps, d)"
proof (induction ps arbitrary: d)
  case Nil
  then show ?case by simp
next
  case (Cons p ps)
  from Cons.prems have ok: "io_ok env (OpenSpill p)" by (simp add: all_ok_def)
  from Cons.prems obtain c where c: "d p = Some c" by auto
  then have "d(p \<mapsto> c) = d" by auto
  with Cons ok c show ?case by simp
qed

lemma file_text_writelines:
  "file_text (writelines d fh ls) p = (if p = fh then file_text d fh @ concat ls else file_text d p)"
  by (simp add: file_text_def writelines_def)

lemma writelines_other: "p \<noteq> fh \<Longrightarrow> writelines d fh ls p = d p"
  by (simp add: writelines_def)

lemma writelines_dom: "d p \<noteq> None \<Longrightarrow> writelines d fh ls p \<noteq> None"
  by (simp add: writelines_def)

lemma flush_buffers_succeeds:
  "all_ok env \<Longrightarrow> \<exists>buf' d'. flush_buffers env ps buf d = (Inr buf', d')"
proof (induction ps arbitrary: buf d)
  case Nil
  then show ?case by simp
next
  case (Cons p ps)
  obtain i fh where p: "p = (i, fh)" by (cases p)
  from Cons.prems have "io_ok env (WriteSpill fh)" by (simp add: all_ok_def)
  with Cons p show ?case by simp
qed

lemma final_flush_succeeds:
  "all_ok env \<Longrightarrow> \<exists>d'. final_flush env ps buf d = (Inr (), d')"
proof (induction ps arbitrary: d)
  case Nil
  then show ?case by simp
next
  case (Cons p ps)
  obtain i fh where p: "p = (i, fh)" by (cases p)
  from Cons.prems have "io_ok env (WriteSpill fh)" by (simp add: all_ok_def)
  with Cons p show ?case by simp
qed

lemma flush_buffers_props:
  assumes "flush_buffers env (map (\<lambda>i. (i, partition_name i)) ixs) buf d = (Inr buf', d')"
    and "distinct ixs" and "\<forall>i \<in> set ixs. i < length buf"
  shows "length buf' = length buf
           \<and> (\<forall>j < length buf. buf' ! j = (if j \<in> set ixs then [] else buf ! j))
           \<and> (\<forall>i \<in> set ixs. file_text d' (partition_name i) = file_text d (partition_name i) @ concat (buf ! i))
           \<and> (\<forall>p. p \<notin> partition_name ` set ixs \<longrightarrow> d' p = d p)
           \<and> (\<forall>p. d p \<noteq> None \<longrightarrow> d' p \<noteq> None)"
  using assms
proof (induction ixs arbitrary: buf d)
  case Nil
  then show ?case by simp
next
  case (Cons i ixs)
  from Cons.prems have d: "distinct ixs" and ni: "i \<notin> set ixs" and il: "i < length buf"
    and l: "\<forall>k \<in> set ixs. k < length buf" by auto
  from ni have nn: "partition_name i \<notin> partition_name ` set ixs"
    using partition_name_inj by auto
  show ?case
  proof (cases "buf ! i = []")
    case True
    with Cons.prems(1) have
      f: "flush_buffers env (map (\<lambda>i. (i, partition_name i)) ixs) buf d = (Inr buf', d')" by simp
    from Cons.IH[OF f d l] have
      1: "length buf' = length buf"
      and 2: "\<forall>j < length buf. buf' ! j = (if j \<in> set ixs then [] else buf ! j)"
      and 3: "\<forall>k \<in> set ixs. file_text d' (partition_name k) = file_text d (partition_name k) @ concat (buf ! k)"
      and 4: "\<forall>p. p \<notin> partition_name ` set ixs \<longrightarrow> d' p = d p"
      and 5: "\<forall>p. d p \<noteq> None \<longrightarrow> d' p \<noteq> None" by blast+
    from 4 nn have "d' (partition_name i) = d (partition_name i)" by simp
    then have i3: "file_text d' (partition_name i) = file_text d (partition_name i) @ concat (buf ! i)"
      using True by (simp add: file_text_def)
    have b: "\<forall>j < length buf. buf' ! j = (if j \<in> set (i # ixs) then [] else buf ! j)"
      using 2 True by auto
    have c: "\<forall>k \<in> set (i # ixs). file_text d' (partition_name k) = file_text d (partition_name k) @ concat (buf ! k)"
      using 3 i3 by simp
    have e: "\<forall>p. p \<notin> partition_name ` set (i # ixs) \<longrightarrow> d' p = d p"
      using 4 by simp
    from 1 b c e 5 show ?thesis by (intro conjI) assumption+
  next
    case False
    let ?b = "buf[i := []]" and ?d = "writelines d (partition_name i) (buf ! i)"
    from False Cons.prems(1) have
      f: "flush_buffers env (map (\<lambda>i. (i, partition_name i)) ixs) ?b ?d = (Inr buf', d')"
      by (simp split: if_splits)
    from l have l': "\<forall>k \<in> set ixs. k < length ?b" by simp
    from Cons.IH[OF f d l'] have
      1: "length buf' = length ?b"
      and 2: "\<forall>j < length ?b. buf' ! j = (if j \<in> set ixs then [] else ?b ! j)"
      and 3: "\<forall>k \<in> set ixs. file_text d' (partition_name k) = file_text ?d (partition_name k) @ concat (?b ! k)"
      and 4: "\<forall>p. p \<notin> partition_name ` set ixs \<longrightarrow> d' p = ?d p"
      and 5: "\<forall>p. ?d p \<noteq> None \<longrightarrow> d' p \<noteq> None" by blast+
    have a: "length buf' = length buf" using 1 by simp
    have b: "\<forall>j < length buf. buf' ! j = (if j \<in> set (i # ixs) then [] else buf ! j)"
      using 2 il by (auto simp: nth_list_update)
    have c: "\<forall>k \<in> set (i # ixs). file_text d' (partition_name k) = file_text d (partition_name k) @ concat (buf ! k)"
    proof
      fix k assume k: "k \<in> set (i # ixs)"
      show "file_text d' (partition_name k) = file_text d (partition_name k) @ concat (buf ! k)"
      proof (cases "k = i")
        case True
        from 4 nn have "d' (partition_name i) = ?d (partition_name i)" by simp
        then have "file_text d' (partition_name i) = file_text ?d (partition_name i)"
          by (simp add: file_text_def)
        with True show ?thesis by (simp add: file_text_writelines)
      next
        case False
        with k have ks: "k \<in> set ixs" by simp
        from False have "partition_name k \<noteq> partition_name i" using partition_name_inj by auto
        with 3 ks False show ?thesis by (simp add: file_text_writelines)
      qed
    qed
    have e: "\<forall>p. p \<notin> partition_name ` set (i # ixs) \<longrightarrow> d' p = d p"
      using 4 by (auto simp: writelines_other)
    have g: "\<forall>p. d p \<noteq> None \<longrightarrow> d' p \<noteq> None"
    proof (intro allI impI)
      fix p assume "d p \<noteq> None"
      then have "?d p \<noteq> None" by (rule writelines_dom)
      with 5 show "d' p \<noteq> None" by simp
    qed
    from a b c e g show ?thesis by (intro conjI) assumption+
  qed
qed

lemma final_flush_props:
  assumes "final_flush env (map (\<lambda>i. (i, partition_name i)) ixs) buf d = (Inr (), d')"
    and "distinct ixs"
  shows "(\<forall>i \<in> set ixs. file_text d' (partition_name i) = file_text d (partition_name i) @ concat (buf ! i))
           \<and> (\<forall>p. p \<notin> partition_name ` set ixs \<longrightarrow> d' p = d p)
           \<and> (\<forall>p. d p \<noteq> None \<longrightarrow> d' p \<noteq> None)"
  using assms
proof (induction ixs arbitrary: d)
  case Nil
  then show ?case by simp
next
  case (Cons i ixs)
  from Cons.prems have d: "distinct ixs" and ni: "i \<notin> set ixs" by auto
  from ni have nn: "partition_name i \<notin> partition_name ` set ixs"
    using partition_name_inj by auto
  let ?d = "if buf ! i \<noteq> [] then writelines d (partition_name i) (buf ! i) else d"
  from Cons.prems(1) have
    f: "final_flush env (map (\<lambda>i. (i, partition_name i)) ixs) buf ?d = (Inr (), d')"
    by (cases "buf ! i = []") (simp_all split: if_splits)
  from Cons.IH[OF f d] have
    3: "\<forall>k \<in> set ixs. file_text d' (partition_name k) = file_text ?d (partition_name k) @ concat (buf ! k)"
    and 4: "\<forall>p. p \<notin> partition_name ` set ixs \<longrightarrow> d' p = ?d p"
    and 5: "\<forall>p. ?d p \<noteq> None \<longrightarrow> d' p \<noteq> None" by blast+
  have c: "\<forall>k \<in> set (i # ixs). file_text d' (partition_name k) = file_text d (partition_name k) @ concat (buf ! k)"
  proof
    fix k assume k: "k \<in> set (i # ixs)"
    show "file_text d' (partition_name k) = file_text d (partition_name k) @ concat (buf ! k)"
    proof (cases "k = i")
      case True
      from 4 nn have "d' (partition_name i) = ?d (partition_name i)" by simp
      then have "file_text d' (partition_name i) = file_text ?d (partition_name i)"
        by (simp add: file_text_def)
      with True show ?thesis by (simp add: file_text_writelines)
    next
      case False
      with k have ks: "k \<in> set ixs" by simp
      from False have "partition_name k \<noteq> partition_name i" using partition_name_inj by auto
      with 3 ks False show ?thesis by (simp add: file_text_writelines)
    qed
  qed
  have e: "\<forall>p. p \<notin> partition_name ` set (i # ixs) \<longrightarrow> d' p = d p"
    using 4 by (auto simp: writelines_other)
  have g: "\<forall>p. d p \<noteq> None \<longrightarrow> d' p \<noteq> None"
  proof (intro allI impI)
    fix p assume "d p \<noteq> None"
    then have "?d p \<noteq> None" using writelines_dom[of d p "partition_name i" "buf ! i"] by auto
    with 5 show "d' p \<noteq> None" by simp
  qed
  from c e g show ?case by (intro conjI) assumption+
qed

lemma flush_buffers_ok:
  assumes "all_ok env" and "distinct ixs" and "\<forall>i \<in> set ixs. i < length buf"
  shows "\<exists>buf' d'. flush_buffers env (map (\<lambda>i. (i, partition_name i)) ixs) buf d = (Inr buf', d')
           \<and> length buf' = length buf
           \<and> (\<forall>j < length buf. buf' ! j = (if j \<in> set ixs then [] else buf ! j))
           \<and> (\<forall>i \<in> set ixs. file_text d' (partition_name i) = file_text d (partition_name i) @ concat (buf ! i))
           \<and> (\<forall>p. p \<notin> partition_name ` set ixs \<longrightarrow> d' p = d p)
           \<and> (\<forall>p. d p \<noteq> None \<longrightarrow> d' p \<noteq> None)"
proof -
  from flush_buffers_succeeds[OF assms(1)] obtain buf' d' where
    f: "flush_buffers env (map (\<lambda>i. (i, partition_name i)) ixs) buf d = (Inr buf', d')" by blast
  from flush_buffers_props[OF f assms(2,3)] f show ?thesis by blast
qed

lemma final_flush_ok:
  assumes "all_ok env" and "distinct ixs"
  shows "\<exists>d'. final_flush env (map (\<lambda>i. (i, partition_name i)) ixs) buf d = (Inr (), d')
           \<and> (\<forall>i \<in> set ixs. file_text d' (partition_name i) = file_text d (partition_name i) @ concat (buf ! i))
           \<and> (\<forall>p. p \<notin> partition_name ` set ixs \<longrightarrow> d' p = d p)
           \<and> (\<forall>p. d p \<noteq> None \<longrightarrow> d' p \<noteq> None)"
proof -
  from final_flush_succeeds[OF assms(1)] obtain d' where
    f: "final_flush env (map (\<lambda>i. (i, partition_name i)) ixs) buf d = (Inr (), d')" by blast
  from final_flush_props[OF f assms(2)] f show ?thesis by blast
qed

lemma enumerate_partition_paths:
  "enumerate_list partition_paths = map (\<lambda>i. (i, partition_name i)) [0 ..< NUM_PARTITIONS]"
  by (simp add: enumerate_list_def partition_paths_def zip_map2 zip_same_conv_map)

lemma hexl_digit_value: "hexl c \<Longrightarrow> digit_value 16 c \<noteq> None"
  by (auto simp: hexl_def digit_value_def Let_def)

lemma length_zfill: "w \<le> length (zfill w s)"
  by (simp add: zfill_def)

lemma py_int_hex_digits:
  "s \<noteq> [] \<Longrightarrow> \<forall>c \<in> set s. hexl c \<Longrightarrow> py_int s 16 = Inr (digits_val 16 s)"
  by (auto simp: py_int_def digits_val_def hexl_digit_value)

lemma encode_ascii: "\<forall>c \<in> set s. c < 128 \<Longrightarrow> encode s = Inr s"
proof -
  assume a: "\<forall>c \<in> set s. c < 128"
  then have "concat (map utf8_char s) = s"
    by (induction s) (auto simp: utf8_char_def)
  moreover from a have "\<not> (\<exists>c \<in> set s. 55296 \<le> c \<and> c \<le> 57343)" by fastforce
  ultimately show ?thesis by (simp add: encode_def)
qed

lemma getsize_ascii: "\<forall>c \<in> set s. c < 128 \<Longrightarrow> getsize s = length s"
proof -
  assume a: "\<forall>c \<in> set s. c < 128"
  then have "concat (map utf8_char s) = s"
    by (induction s) (auto simp: utf8_char_def)
  then show ?thesis by (simp add: getsize_def)
qed

lemma getsize_pos: "getsize s > 0 \<longleftrightarrow> s \<noteq> []"
  by (cases s) (auto simp: getsize_def utf8_char_def)

lemma canonical_form_ascii: "canonical_form c \<Longrightarrow> \<forall>ch \<in> set c. ch < 128"
  unfolding canonical_form_def using canonical_chars canon_char_facts by blast

lemma hexdigest_prefix:
  "take 8 (hexdigest w) \<noteq> [] \<and> (\<forall>c \<in> set (take 8 (hexdigest w)). hexl c)"
proof -
  have "32 \<le> length (hexdigest w)" by (simp add: hexdigest_def length_zfill)
  then have "take 8 (hexdigest w) \<noteq> []" by auto
  moreover have "\<forall>c \<in> set (hexdigest w). hexl c"
    unfolding hexdigest_def using zfill_chars hex_of_chars by (fastforce simp: hexl_def)
  then have "\<forall>c \<in> set (take 8 (hexdigest w)). hexl c" by (meson in_set_takeD)
  ultimately show ?thesis by simp
qed

lemma partition_index_canonical:
  assumes "canonical_form c"
  shows "partition_index env c =
           Inr (digits_val 16 (take 8 (hexdigest (md5 env c))) mod NUM_PARTITIONS)"
proof -
  from assms have "encode c = Inr c" by (simp add: encode_ascii canonical_form_ascii)
  then show ?thesis
    using hexdigest_prefix[of "md5 env c"] by (simp add: partition_index_def py_int_hex_digits)
qed

lemma partition_index_bound:
  "partition_index env c = Inr i \<Longrightarrow> i < NUM_PARTITIONS"
  by (auto simp: partition_index_def NUM_PARTITIONS_def split: sum.splits)

lemma spill_text_append: "spill_text (xs @ ys) = spill_text xs @ spill_text ys"
  by (simp add: spill_text_def)

lemma spill_inv_append:
  assumes inv: "spill_inv env cs buf d" and idx: "partition_index env c = Inr idx"
  shows "spill_inv env (cs @ [c]) (buf[idx := buf ! idx @ [c @ [10]]]) d"
proof -
  from idx have il: "idx < NUM_PARTITIONS" by (rule partition_index_bound)
  from inv have len: "length buf = NUM_PARTITIONS" by (simp add: spill_inv_def)
  have "\<forall>i < NUM_PARTITIONS. d (partition_name i) \<noteq> None \<and>
        file_text d (partition_name i) @ concat (buf[idx := buf ! idx @ [c @ [10]]] ! i) =
          spill_text (filter (\<lambda>c. partition_index env c = Inr i) (cs @ [c]))"
  proof (intro allI impI)
    fix i assume i: "i < NUM_PARTITIONS"
    from inv i have 1: "d (partition_name i) \<noteq> None"
      and 2: "file_text d (partition_name i) @ concat (buf ! i) =
          spill_text (filter (\<lambda>c. partition_index env c = Inr i) cs)"
      by (simp_all add: spill_inv_def)
    show "d (partition_name i) \<noteq> None \<and>
        file_text d (partition_name i) @ concat (buf[idx := buf ! idx @ [c @ [10]]] ! i) =
          spill_text (filter (\<lambda>c. partition_index env c = Inr i) (cs @ [c]))"
    proof (cases "i = idx")
      case True
      have "file_text d (partition_name i) @ concat (buf ! i @ [c @ [10]]) =
          spill_text (filter (\<lambda>c. partition_index env c = Inr i) cs) @ c @ [10]"
        using 2 by (simp flip: append_assoc)
      with True 1 idx il len show ?thesis by (simp add: spill_text_append spill_text_def)
    next
      case False
      with idx have "partition_index env c \<noteq> Inr i" by simp
      with False 1 2 show ?thesis by simp
    qed
  qed
  with len show ?thesis by (simp add: spill_inv_def)
qed

lemma spill_inv_flush:
  assumes ok: "all_ok env" and inv: "spill_inv env cs buf d"
  shows "\<exists>buf' d'. flush_buffers env (enumerate_list partition_paths) buf d = (Inr buf', d')
           \<and> (\<forall>i < NUM_PARTITIONS. buf' ! i = []) \<and> spill_inv env cs buf' d'"
proof -
  from inv have len: "length buf = NUM_PARTITIONS" by (simp add: spill_inv_def)
  have "\<forall>i \<in> set [0 ..< NUM_PARTITIONS]. i < length buf" using len by simp
  from flush_buffers_ok[OF ok _ this, of d] obtain buf' d' where
    f: "flush_buffers env (map (\<lambda>i. (i, partition_name i)) [0 ..< NUM_PARTITIONS]) buf d = (Inr buf', d')"
    and 1: "length buf' = length buf"
    and 2: "\<forall>j < length buf. buf' ! j = (if j \<in> set [0 ..< NUM_PARTITIONS] then [] else buf ! j)"
    and 3: "\<forall>i \<in> set [0 ..< NUM_PARTITIONS]. file_text d' (partition_name i) = file_text d (partition_name i) @ concat (buf ! i)"
    and 5: "\<forall>p. d p \<noteq> None \<longrightarrow> d' p \<noteq> None"
    by auto
  from 2 len have e: "\<forall>i < NUM_PARTITIONS. buf' ! i = []" by simp
  have "spill_inv env cs buf' d'"
    unfolding spill_inv_def
  proof (intro conjI allI impI)
    show "length buf' = NUM_PARTITIONS" using 1 len by simp
  next
    fix i assume i: "i < NUM_PARTITIONS"
    with inv 5 show "d' (partition_name i) \<noteq> None" by (simp add: spill_inv_def)
    from i 3 have "file_text d' (partition_name i) = file_text d (partition_name i) @ concat (buf ! i)"
      by simp
    with e i inv show "file_text d' (partition_name i) @ concat (buf' ! i) =
          spill_text (filter (\<lambda>c. partition_index env c = Inr i) cs)"
      by (simp add: spill_inv_def)
  qed
  with f e show ?thesis by (simp add: enumerate_partition_paths)
qed

lemma partition_line_blank:
  "strip line = [] \<Longrightarrow> partition_line env fhs line st d = (Inr st, d)"
  by (simp add: partition_line_def)

lemma partition_line_invalid:
  "strip line \<noteq> [] \<Longrightarrow> ipv6_to_canonical (strip line) = Inl e \<Longrightarrow>
   partition_line env fhs line st d = (Inl e, d)"
  by (simp add: partition_line_def)

lemma partition_line_valid:
  assumes ok: "all_ok env" and inv: "spill_inv env cs (buffer st) d"
    and ne: "strip line \<noteq> []" and c: "ipv6_to_canonical (strip line) = Inr c"
  shows "\<exists>st' d'. partition_line env partition_paths line st d = (Inr st', d')
           \<and> spill_inv env (cs @ [c]) (buffer st') d'"
proof -
  from c have cf: "canonical_form c" by (auto simp: canonical_form_def)
  then obtain idx where idx: "partition_index env c = Inr idx"
    by (simp add: partition_index_canonical)
  let ?buf = "(buffer st)[idx := buffer st ! idx @ [c @ [10]]]"
  have inv': "spill_inv env (cs @ [c]) ?buf d" using inv idx by (rule spill_inv_append)
  show ?thesis
  proof (cases "buffer_size st + (length c + 1) \<ge> CHUNK_WRITE_SIZE")
    case True
    from spill_inv_flush[OF ok inv'] obtain buf' d' where
      f: "flush_buffers env (enumerate_list partition_paths) ?buf d = (Inr buf', d')"
      and i: "spill_inv env (cs @ [c]) buf' d'" by blast
    from True ne c idx f have "partition_line env partition_paths line st d =
        (Inr \<lparr>buffer = buf', buffer_size = 0\<rparr>, d')"
      by (simp add: partition_line_def Let_def)
    with i show ?thesis by simp
  next
    case False
    with ne c idx have "partition_line env partition_paths line st d =
        (Inr \<lparr>buffer = ?buf, buffer_size = buffer_size st + (length c + 1)\<rparr>, d)"
      by (simp add: partition_line_def Let_def)
    with inv' show ?thesis by simp
  qed
qed

lemma partition_loop_canon_lines:
  assumes ok: "all_ok env"
  shows "spill_inv env cs (buffer st) d \<Longrightarrow>
     (case canon_lines lines of
        Inl e \<Rightarrow> fst (partition_loop env partition_paths lines st d) = Inl e
      | Inr cs' \<Rightarrow> (\<exists>st' d'. partition_loop env partition_paths lines st d = (Inr st', d')
                     \<and> spill_inv env (cs @ cs') (buffer st') d'))"
proof (induction lines arbitrary: cs st d)
  case Nil
  then show ?case by simp
next
  case (Cons line lines)
  show ?case
  proof (cases "strip line = []")
    case True
    then have "partition_loop env partition_paths (line # lines) st d =
        partition_loop env partition_paths lines st d"
      by (simp add: partition_line_blank)
    with True Cons.IH[OF Cons.prems] show ?thesis by (simp split: sum.splits)
  next
    case False
    show ?thesis
    proof (cases "ipv6_to_canonical (strip line)")
      case (Inl e)
      with False show ?thesis by (simp add: partition_line_invalid)
    next
      case (Inr c)
      from partition_line_valid[OF ok Cons.prems False Inr] obtain st' d' where
        s: "partition_line env partition_paths line st d = (Inr st', d')"
        and i: "spill_inv env (cs @ [c]) (buffer st') d'" by blast
      from Cons.IH[OF i, of ] have ih:
        "(case canon_lines lines of
            Inl e \<Rightarrow> fst (partition_loop env partition_paths lines st' d') = Inl e
          | Inr cs' \<Rightarrow> (\<exists>st'' d''. partition_loop env partition_paths lines st' d' = (Inr st'', d'')
                     \<and> spill_inv env ((cs @ [c]) @ cs') (buffer st'') d''))" .
      show ?thesis
      proof (cases "canon_lines lines")
        case (Inl e)
        with ih False \<open>ipv6_to_canonical (strip line) = Inr c\<close> s show ?thesis by simp
      next
        case (Inr cs')
        with ih False \<open>ipv6_to_canonical (strip line) = Inr c\<close> s show ?thesis by simp
      qed
    qed
  qed
qed

lemma canon_lines_forms: "canon_lines lines = Inr cs \<Longrightarrow> \<forall>c \<in> set cs. canonical_form c"
proof (induction lines arbitrary: cs)
  case Nil
  then show ?case by simp
next
  case (Cons line lines)
  show ?case
  proof (cases "strip line = []")
    case True
    with Cons show ?thesis by simp
  next
    case False
    with Cons.prems obtain c cs' where c: "ipv6_to_canonical (strip line) = Inr c"
      and r: "canon_lines lines = Inr cs'" and cs: "cs = c # cs'"
      by (auto split: sum.splits)
    from c have "canonical_form c" by (auto simp: canonical_form_def)
    with Cons.IH[OF r] cs show ?thesis by simp
  qed
qed

lemma basic_loop_canon_lines:
  "basic_loop lines unique =
     (case canon_lines lines of Inl e \<Rightarrow> Inl e | Inr cs \<Rightarrow> Inr (unique \<union> set cs))"
proof (induction lines arbitrary: unique)
  case Nil
  then show ?case by simp
next
  case (Cons line lines)
  show ?case
  proof (cases "strip line = []")
    case True
    with Cons show ?thesis by (simp add: Let_def)
  next
    case False
    then show ?thesis using Cons by (simp add: Let_def split: sum.splits)
  qed
qed

lemma count_unique_basic_eq:
  "count_unique_basic w input_path =
     (case files w input_path of None \<Rightarrow> Inl OSError | Some text \<Rightarrow> distinct_count text)"
  by (simp add: count_unique_basic_def distinct_count_def basic_loop_canon_lines
      split: option.splits sum.splits)

lemma spill_inv_initial:
  assumes "\<forall>i < NUM_PARTITIONS. d (partition_name i) = Some []"
  shows "spill_inv env [] (replicate NUM_PARTITIONS []) d"
  using assms by (simp add: spill_inv_def file_text_def spill_text_def)

lemma partition_phase_no_input:
  assumes ok: "all_ok env" and d: "\<forall>i < NUM_PARTITIONS. d (partition_name i) = Some []"
  shows "partition_phase env None d = (Inl OSError, d)"
proof -
  from d have "\<forall>p \<in> set partition_paths. d p \<noteq> None" by (auto simp: partition_paths_def)
  with ok have "open_files env partition_paths d = (Inr partition_paths, d)" by (rule open_files_ok)
  then show ?thesis by (simp add: partition_phase_def)
qed

lemma partition_phase_ok:
  assumes ok: "all_ok env" and d: "\<forall>i < NUM_PARTITIONS. d (partition_name i) = Some []"
  shows "case canon_lines (readlines text) of
           Inl e \<Rightarrow> fst (partition_phase env (Some text) d) = Inl e
         | Inr cs \<Rightarrow> (\<exists>d'. partition_phase env (Some text) d = (Inr (), d') \<and>
             (\<forall>i < NUM_PARTITIONS. d' (partition_name i) =
                Some (spill_text (filter (\<lambda>c. partition_index env c = Inr i) cs))))"
proof -
  from d have "\<forall>p \<in> set partition_paths. d p \<noteq> None" by (auto simp: partition_paths_def)
  with ok have op: "open_files env partition_paths d = (Inr partition_paths, d)"
    by (rule open_files_ok)
  let ?st = "\<lparr>buffer = replicate NUM_PARTITIONS [], buffer_size = 0\<rparr>"
  have "spill_inv env [] (buffer ?st) d" using spill_inv_initial[OF d] by simp
  from partition_loop_canon_lines[OF ok this, of "readlines text"]
  have loop: "case canon_lines (readlines text) of
        Inl e \<Rightarrow> fst (partition_loop env partition_paths (readlines text) ?st d) = Inl e
      | Inr cs' \<Rightarrow> (\<exists>st' d'. partition_loop env partition_paths (readlines text) ?st d = (Inr st', d')
                     \<and> spill_inv env ([] @ cs') (buffer st') d')" .
  show ?thesis
  proof (cases "canon_lines (readlines text)")
    case (Inl e)
    with loop have "fst (partition_loop env partition_paths (readlines text) ?st d) = Inl e" by simp
    then have "fst (partition_phase env (Some text) d) = Inl e"
      by (auto simp: partition_phase_def op split: prod.splits sum.splits)
    with Inl show ?thesis by simp
  next
    case (Inr cs)
    with loop obtain st' d1 where
      l: "partition_loop env partition_paths (readlines text) ?st d = (Inr st', d1)"
      and inv: "spill_inv env cs (buffer st') d1" by auto
    from final_flush_ok[OF ok, of "[0 ..< NUM_PARTITIONS]" "buffer st'" d1] obtain d' where
      f: "final_flush env (map (\<lambda>i. (i, partition_name i)) [0 ..< NUM_PARTITIONS]) (buffer st') d1 = (Inr (), d')"
      and 3: "\<forall>i \<in> set [0 ..< NUM_PARTITIONS]. file_text d' (partition_name i) = file_text d1 (partition_name i) @ concat (buffer st' ! i)"
      and 5: "\<forall>p. d1 p \<noteq> None \<longrightarrow> d' p \<noteq> None" by auto
    have "\<forall>i < NUM_PARTITIONS. d' (partition_name i) =
                Some (spill_text (filter (\<lambda>c. partition_index env c = Inr i) cs))"
    proof (intro allI impI)
      fix i assume i: "i < NUM_PARTITIONS"
      with inv have "d1 (partition_name i) \<noteq> None" by (simp add: spill_inv_def)
      with 5 obtain t where t: "d' (partition_name i) = Some t" by auto
      from i 3 inv have "file_text d' (partition_name i) =
          spill_text (filter (\<lambda>c. partition_index env c = Inr i) cs)"
        by (simp add: spill_inv_def)
      with t show "d' (partition_name i) =
                Some (spill_text (filter (\<lambda>c. partition_index env c = Inr i) cs))"
        by (simp add: file_text_def)
    qed
    moreover have "partition_phase env (Some text) d = (Inr (), d')"
      using op l f by (simp add: partition_phase_def enumerate_partition_paths)
    ultimately show ?thesis using Inr by simp
  qed
qed

lemma sum_results_ok:
  assumes ok: "all_ok env"
  shows "\<forall>p \<in> set ps. d p \<noteq> None \<Longrightarrow>
     sum_results env d ps acc =
       Inr (acc + sum_list (map (\<lambda>p. card (set (stripped_lines (file_text d p)))) ps))"
proof (induction ps arbitrary: acc)
  case Nil
  then show ?case by simp
next
  case (Cons p ps)
  from ok have r: "io_ok env (ReadSpill p)" by (simp add: all_ok_def)
  from Cons.prems obtain t where t: "d p = Some t" by auto
  with r have "count_unique_in_partition env d p = Inr (card (set (stripped_lines (file_text d p))))"
    by (simp add: count_unique_in_partition_def file_text_def)
  with Cons show ?case by simp
qed

lemma sum_list_perm: "mset xs = mset ys \<Longrightarrow> sum_list (map f xs) = sum_list (map (f :: 'a \<Rightarrow> nat) ys)"
proof -
  assume "mset xs = mset ys"
  then have "mset (map f xs) = mset (map f ys)" by simp
  then have "sum_mset (mset (map f xs)) = sum_mset (mset (map f ys))" by (rule arg_cong)
  then show ?thesis by (simp only: sum_mset_sum_list)
qed

lemma sum_list_filter_zero:
  "\<forall>x \<in> set xs. \<not> P x \<longrightarrow> f x = (0::nat) \<Longrightarrow> sum_list (map f (filter P xs)) = sum_list (map f xs)"
  by (induction xs) auto

lemma stripped_lines_empty: "stripped_lines [] = []"
  by (simp add: stripped_lines_def readlines_def)

lemma card_by_index:
  assumes "\<forall>c \<in> set cs. \<exists>i < (n::nat). R c i" and "\<And>c i j. R c i \<Longrightarrow> R c j \<Longrightarrow> i = j"
  shows "(\<Sum>i = 0 ..< n. card (set (filter (\<lambda>c. R c i) cs))) = card (set cs)"
proof -
  have "card (\<Union>i \<in> {0 ..< n}. set (filter (\<lambda>c. R c i) cs)) =
      (\<Sum>i \<in> {0 ..< n}. card (set (filter (\<lambda>c. R c i) cs)))"
    by (rule card_UN_disjoint) (use assms(2) in auto)
  moreover have "(\<Union>i \<in> {0 ..< n}. set (filter (\<lambda>c. R c i) cs)) = set cs"
    using assms(1) by force
  ultimately show ?thesis by simp
qed

lemma count_phase_ok:
  assumes ok: "all_ok env" and fair: "fair_schedule env" and k: "0 < k"
    and d: "\<forall>i < NUM_PARTITIONS. d (partition_name i) =
                Some (spill_text (filter (\<lambda>c. partition_index env c = Inr i) cs))"
    and cf: "\<forall>c \<in> set cs. canonical_form c"
  shows "count_phase env d k = Inr (card (set cs))"
proof -
  let ?P = "\<lambda>p. case d p of None \<Rightarrow> False | Some c \<Rightarrow> getsize c > 0"
  let ?f = "\<lambda>p. card (set (stripped_lines (file_text d p)))"
  let ?futures = "filter ?P partition_paths"
  let ?ps = "as_completed env ?futures"
  from fair have perm: "mset ?ps = mset ?futures" by (simp add: fair_schedule_def)
  then have "set ?ps = set ?futures" by (rule mset_eq_setD)
  moreover have "\<forall>p \<in> set partition_paths. d p \<noteq> None"
    using d by (auto simp: partition_paths_def)
  ultimately have dom: "\<forall>p \<in> set ?ps. d p \<noteq> None" by auto
  have fi: "\<And>i. i < NUM_PARTITIONS \<Longrightarrow>
      ?f (partition_name i) = card (set (filter (\<lambda>c. partition_index env c = Inr i) cs))"
  proof -
    fix i assume i: "i < NUM_PARTITIONS"
    with d have "file_text d (partition_name i) =
        spill_text (filter (\<lambda>c. partition_index env c = Inr i) cs)"
      by (simp add: file_text_def)
    moreover have "\<forall>c \<in> set (filter (\<lambda>c. partition_index env c = Inr i) cs). canonical_form c"
      using cf by simp
    ultimately show "?f (partition_name i) =
        card (set (filter (\<lambda>c. partition_index env c = Inr i) cs))"
      by (simp only: stripped_lines_spill_text)
  qed
  have zero: "\<forall>p \<in> set partition_paths. \<not> ?P p \<longrightarrow> ?f p = 0"
  proof (intro ballI impI)
    fix p assume p: "p \<in> set partition_paths" and np: "\<not> ?P p"
    from p obtain i where i: "i < NUM_PARTITIONS" and pi: "p = partition_name i"
      by (auto simp: partition_paths_def)
    from d i pi np have "file_text d p = []"
      by (simp add: file_text_def getsize_pos)
    then show "?f p = 0" by (simp add: stripped_lines_empty)
  qed
  from k have "count_phase env d k = sum_results env d ?ps 0"
    by (simp add: count_phase_def Let_def)
  also have "\<dots> = Inr (0 + sum_list (map ?f ?ps))" using ok dom by (rule sum_results_ok)
  also have "sum_list (map ?f ?ps) = sum_list (map ?f ?futures)" using perm by (rule sum_list_perm)
  also have "\<dots> = sum_list (map ?f partition_paths)" using zero by (rule sum_list_filter_zero)
  also have "\<dots> = sum_list (map (\<lambda>i. ?f (partition_name i)) [0 ..< NUM_PARTITIONS])"
    by (simp add: partition_paths_def comp_def)
  also have "\<dots> = (\<Sum>i = 0 ..< NUM_PARTITIONS. ?f (partition_name i))"
    by (simp add: interv_sum_list_conv_sum_set_nat)
  also have "\<dots> = (\<Sum>i = 0 ..< NUM_PARTITIONS.
        card (set (filter (\<lambda>c. partition_index env c = Inr i) cs)))"
    using fi by simp
  also have "\<dots> = card (set cs)"
  proof (rule card_by_index)
    show "\<forall>c \<in> set cs. \<exists>i < NUM_PARTITIONS. partition_index env c = Inr i"
    proof
      fix c assume "c \<in> set cs"
      with cf have "canonical_form c" by simp
      then obtain i where i: "partition_index env c = Inr i" by (simp add: partition_index_canonical)
      then have "i < NUM_PARTITIONS" by (rule partition_index_bound)
      with i show "\<exists>i < NUM_PARTITIONS. partition_index env c = Inr i" by blast
    qed
  qed simp
  finally show ?thesis by simp
qed

lemma create_files_partition_paths:
  assumes "all_ok env"
  shows "\<exists>d'. create_files env partition_paths d = (Inr (), d') \<and>
           (\<forall>i < NUM_PARTITIONS. d' (partition_name i) = Some [])"
proof -
  from assms have "create_files env partition_paths d =
      (Inr (), (\<lambda>p. if p \<in> set partition_paths then Some [] else d p))"
    by (rule create_files_ok)
  moreover have "\<forall>i < NUM_PARTITIONS. partition_name i \<in> set partition_paths"
    by (simp add: partition_paths_def)
  ultimately show ?thesis by simp
qed

lemma optimized_in_dir_eq:
  assumes ok: "all_ok env" and fair: "fair_schedule env"
    and w: "resolve_workers env num_workers = Inr k" and k: "0 < k"
  shows "fst (optimized_in_dir env input d num_workers) =
     (case input of None \<Rightarrow> Inl OSError | Some text \<Rightarrow> distinct_count text)"
proof -
  from create_files_partition_paths[OF ok, of d] obtain d1 where
    c: "create_files env partition_paths d = (Inr (), d1)"
    and d1: "\<forall>i < NUM_PARTITIONS. d1 (partition_name i) = Some []" by blast
  show ?thesis
  proof (cases input)
    case None
    with w c partition_phase_no_input[OF ok d1] show ?thesis
      by (simp add: optimized_in_dir_def)
  next
    case (Some body)
    note ph = partition_phase_ok[OF ok d1, of body]
    show ?thesis
    proof (cases "canon_lines (readlines body)")
      case (Inl e)
      with ph have "fst (partition_phase env (Some body) d1) = Inl e" by simp
      then have "fst (optimized_in_dir env (Some body) d num_workers) = Inl e"
        using w c by (auto simp: optimized_in_dir_def split: prod.splits sum.splits)
      with Some Inl show ?thesis by (simp add: distinct_count_def)
    next
      case (Inr cs)
      with ph obtain d2 where p: "partition_phase env (Some body) d1 = (Inr (), d2)"
        and d2: "\<forall>i < NUM_PARTITIONS. d2 (partition_name i) =
                Some (spill_text (filter (\<lambda>c. partition_index env c = Inr i) cs))" by auto
      from Inr have "\<forall>c \<in> set cs. canonical_form c" by (rule canon_lines_forms)
      with ok fair k d2 have "count_phase env d2 k = Inr (card (set cs))" by (rule count_phase_ok)
      with w c p Some Inr show ?thesis by (simp add: optimized_in_dir_def distinct_count_def)
    qed
  qed
qed

lemma count_unique_optimized_eq_basic:
  assumes ok: "all_ok env" and fair: "fair_schedule env"
    and w: "resolve_workers env num_workers = Inr k" and k: "0 < k"
    and t: "dirs w temp_dir \<noteq> None"
  shows "fst (count_unique_optimized env w input_path temp_dir num_workers) =
     count_unique_basic w input_path"
proof -
  from t obtain d where d: "dirs w temp_dir = Some d" by auto
  then have "fst (count_unique_optimized env w input_path temp_dir num_workers) =
      fst (optimized_in_dir env (files w input_path) d num_workers)"
    by (simp add: count_unique_optimized_def split: prod.splits)
  also have "\<dots> = (case files w input_path of None \<Rightarrow> Inl OSError | Some text \<Rightarrow> distinct_count text)"
    using ok fair w k by (rule optimized_in_dir_eq)
  finally show ?thesis by (simp add: count_unique_basic_eq)
qed

lemmas parse_eval = py_def strip_def isspace_def partition_str_def split_scope_id_def
  IPv6Address_def v6_ip_int_from_string_def v6_parts_to_int_def parse_hextet_def HEX_DIGITS_def
  py_int_def digit_value_def IPv4Address_def v4_ip_int_from_string_def parse_octet_def
  as_address_error_def Let_def

lemmas print_eval = str_of_address_def string_from_ip_int_def hex_groups_def zfill_def
  hex_of.simps digit_char_def compress_hextets_def scan_hextet_def exploded_def lower_def
  ipv6_to_canonical_def

lemma example_env_ok: "all_ok example_env" "fair_schedule example_env"
  by (simp_all add: all_ok_def fair_schedule_def example_env_def)

lemma canon_lines_valid:
  assumes "\<forall>l \<in> set (filter (\<lambda>l. l \<noteq> []) (map strip lines)). \<exists>c. ipv6_to_canonical l = Inr c"
  shows "canon_lines lines =
     Inr (map (\<lambda>l. case ipv6_to_canonical l of Inl e \<Rightarrow> [] | Inr c \<Rightarrow> c)
            (filter (\<lambda>l. l \<noteq> []) (map strip lines)))"
  using assms
proof (induction lines)
  case Nil
  then show ?case by simp
next
  case (Cons line lines)
  show ?case
  proof (cases "strip line = []")
    case True
    with Cons show ?thesis by simp
  next
    case False
    with Cons.prems obtain c where c: "ipv6_to_canonical (strip line) = Inr c" by auto
    from Cons have "canon_lines lines =
     Inr (map (\<lambda>l. case ipv6_to_canonical l of Inl e \<Rightarrow> [] | Inr c \<Rightarrow> c)
            (filter (\<lambda>l. l \<noteq> []) (map strip lines)))" by simp
    with False c show ?thesis by simp
  qed
qed

lemma canon_lines_invalid:
  assumes "line \<in> set lines" and "strip line \<noteq> []" and "ipv6_to_canonical (strip line) = Inl e0"
  shows "\<exists>e. canon_lines lines = Inl e"
  using assms(1)
proof (induction lines)
  case Nil
  then show ?case by simp
next
  case (Cons l lines)
  show ?case
  proof (cases "l = line")
    case True
    with assms(2,3) show ?thesis by simp
  next
    case False
    with Cons obtain e where "canon_lines lines = Inl e" by auto
    then show ?thesis by (simp split: sum.splits)
  qed
qed

lemma partition_loop_invalid:
  assumes "strip line \<noteq> []" and "ipv6_to_canonical (strip line) = Inl e0"
  shows "line \<in> set lines \<Longrightarrow> \<exists>e. fst (partition_loop env fhs lines st d) = Inl e"
proof (induction lines arbitrary: st d)
  case Nil
  then show ?case by simp
next
  case (Cons l lines)
  show ?case
  proof (cases "partition_line env fhs l st d")
    case (Pair r d')
    show ?thesis
    proof (cases r)
      case (Inl e)
      with Pair show ?thesis by simp
    next
      case (Inr st')
      have "l \<noteq> line"
      proof
        assume "l = line"
        with assms have "partition_line env fhs l st d = (Inl e0, d)"
          by (simp add: partition_line_invalid)
        with Pair Inr show False by simp
      qed
      with Cons.prems have "line \<in> set lines" by simp
      from Cons.IH[OF this, of st' d'] Pair Inr show ?thesis by simp
    qed
  qed
qed

lemma optimized_in_dir_invalid:
  assumes "line \<in> set (readlines body)" and "strip line \<noteq> []"
    and "ipv6_to_canonical (strip line) = Inl e0"
  shows "\<exists>e. fst (optimized_in_dir env (Some body) d num_workers) = Inl e"
proof -
  have ph: "\<And>d1. \<exists>e. fst (partition_phase env (Some body) d1) = Inl e"
  proof -
    fix d1
    show "\<exists>e. fst (partition_phase env (Some body) d1) = Inl e"
    proof (cases "open_files env partition_paths d1")
      case (Pair r d')
      show ?thesis
      proof (cases r)
        case (Inl e)
        with Pair show ?thesis by (simp add: partition_phase_def)
      next
        case (Inr fhs)
        from partition_loop_invalid[OF assms(2,3,1)] obtain e where
          "fst (partition_loop env fhs (readlines body)
             \<lparr>buffer = replicate NUM_PARTITIONS [], buffer_size = 0\<rparr> d') = Inl e" by blast
        with Pair Inr show ?thesis
          by (auto simp: partition_phase_def split: prod.splits sum.splits)
      qed
    qed
  qed
  show ?thesis
  proof (cases "resolve_workers env num_workers")
    case (Inl e)
    then show ?thesis by (simp add: optimized_in_dir_def)
  next
    case (Inr k)
    show ?thesis
    proof (cases "create_files env partition_paths d")
      case (Pair r d1)
      show ?thesis
      proof (cases r)
        case (Inl e)
        with Pair Inr show ?thesis by (simp add: optimized_in_dir_def)
      next
        case r: (Inr u)
        from ph[of d1] obtain e where "fst (partition_phase env (Some body) d1) = Inl e" by blast
        with Pair Inr r show ?thesis
          by (auto simp: optimized_in_dir_def split: prod.splits sum.splits)
      qed
    qed
  qed
qed

lemma count_unique_optimized_invalid:
  assumes "files w input_path = Some body" and "line \<in> set (readlines body)"
    and "strip line \<noteq> []" and "ipv6_to_canonical (strip line) = Inl e0"
  shows "\<exists>e. fst (count_unique_optimized env w input_path temp_dir num_workers) = Inl e"
proof (cases "dirs w temp_dir")
  case None
  then show ?thesis by (simp add: count_unique_optimized_def split: sum.splits)
next
  case (Some d)
  from optimized_in_dir_invalid[OF assms(2,3,4), of env d num_workers] obtain e where
    "fst (optimized_in_dir env (Some body) d num_workers) = Inl e" by blast
  with Some assms(1) show ?thesis
    by (auto simp: count_unique_optimized_def split: prod.splits)
qed

lemma mkdtemp_fresh: "mkdtemp env w = Inr t \<Longrightarrow> dirs w t = None \<and> files w t = None"
  by (auto simp: mkdtemp_def split: option.splits dest: find_Some_iff[THEN iffD1])

lemma with_temporary_directory_restores:
  "snd (with_temporary_directory env a w) = w"
proof (cases "mkdtemp env w")
  case (Inl e)
  then show ?thesis by (simp add: with_temporary_directory_def)
next
  case (Inr t)
  then have "dirs w t = None" by (simp add: mkdtemp_fresh)
  then have "(dirs w)(t := None) = dirs w" by auto
  with Inr show ?thesis
    by (auto simp: with_temporary_directory_def count_unique_optimized_def
        split: prod.splits option.splits sum.splits)
qed

lemma with_temporary_directory_invalid:
  assumes "files w (input_file a) = Some body" and "line \<in> set (readlines body)"
    and "strip line \<noteq> []" and "ipv6_to_canonical (strip line) = Inl e0"
  shows "\<exists>e. fst (with_temporary_directory env a w) = Inl e"
proof (cases "mkdtemp env w")
  case (Inl e)
  then show ?thesis by (simp add: with_temporary_directory_def)
next
  case (Inr t)
  let ?w = "w\<lparr>dirs := (dirs w)(t \<mapsto> Map.empty)\<rparr>"
  from assms(1) have "files ?w (input_file a) = Some body" by simp
  from count_unique_optimized_invalid[OF this assms(2,3,4), of env t "workers a"] obtain e where
    "fst (count_unique_optimized env ?w (input_file a) t (workers a)) = Inl e" by blast
  with Inr show ?thesis by (auto simp: with_temporary_directory_def split: prod.splits)
qed

lemma optimized_in_dir_spill:
  assumes ok: "all_ok env" and w: "resolve_workers env num_workers = Inr k"
    and cs: "canon_lines (readlines body) = Inr cs"
  shows "\<forall>i < NUM_PARTITIONS. snd (optimized_in_dir env (Some body) d num_workers) (partition_name i) =
           Some (spill_text (filter (\<lambda>c. partition_index env c = Inr i) cs))"
proof -
  from create_files_partition_paths[OF ok, of d] obtain d1 where
    c: "create_files env partition_paths d = (Inr (), d1)"
    and d1: "\<forall>i < NUM_PARTITIONS. d1 (partition_name i) = Some []" by blast
  from partition_phase_ok[OF ok d1, of body] cs obtain d2 where
    p: "partition_phase env (Some body) d1 = (Inr (), d2)"
    and d2: "\<forall>i < NUM_PARTITIONS. d2 (partition_name i) =
                Some (spill_text (filter (\<lambda>c. partition_index env c = Inr i) cs))" by auto
  from w c p have "snd (optimized_in_dir env (Some body) d num_workers) = d2"
    by (simp add: optimized_in_dir_def)
  with d2 show ?thesis by simp
qed

lemma length_pad_hex: "length (pad_hex k n) = k"
  by (induction k arbitrary: n) auto

lemma pad_hex_zero: "pad_hex k 0 = replicate k 48"
  by (induction k) (auto simp: digit_char_def replicate_append_same)

lemma length_hex_of_pos: "0 < length (hex_of n)"
  by (subst hex_of.simps) simp

lemma zfill_snoc: "zfill (Suc k) (s @ [c]) = zfill k s @ [c]"
  by (simp add: zfill_def)

lemma zfill_hex_of: "n < 16 ^ k \<Longrightarrow> 0 < k \<Longrightarrow> zfill k (hex_of n) = pad_hex k n"
proof (induction k arbitrary: n)
  case 0
  then show ?case by simp
next
  case (Suc k)
  show ?case
  proof (cases "n < 16")
    case True
    then have "hex_of n = [digit_char n]" by (simp add: hex_of.simps)
    with True show ?thesis by (simp add: zfill_def pad_hex_zero)
  next
    case False
    with Suc.prems have k: "0 < k" by (cases k) auto
    from Suc.prems have "n div 16 < 16 ^ k" by (simp add: less_mult_imp_div_less mult.commute)
    with Suc.IH k have "zfill k (hex_of (n div 16)) = pad_hex k (n div 16)" by simp
    moreover from False have "hex_of n = hex_of (n div 16) @ [digit_char (n mod 16)]"
      by (simp add: hex_of.simps[of n])
    ultimately show ?thesis by (simp add: zfill_snoc)
  qed
qed

lemma pad_hex_add: "pad_hex (a + b) n = pad_hex a (n div 16 ^ b) @ pad_hex b n"
proof (induction b arbitrary: n)
  case 0
  then show ?case by simp
next
  case (Suc b)
  have "pad_hex (a + Suc b) n = pad_hex (a + b) (n div 16) @ [digit_char (n mod 16)]" by simp
  also have "\<dots> = pad_hex a (n div 16 div 16 ^ b) @ pad_hex b (n div 16) @ [digit_char (n mod 16)]"
    by (simp add: Suc.IH)
  also have "n div 16 div 16 ^ b = n div 16 ^ Suc b" by (simp add: div_mult2_eq)
  finally show ?case by simp
qed

lemma digits_val_pad_hex: "digits_val 16 (pad_hex k n) = n mod 16 ^ k"
proof (induction k arbitrary: n)
  case 0
  then show ?case by (simp add: digits_val_def)
next
  case (Suc k)
  have "digits_val 16 (pad_hex (Suc k) n) = (n div 16) mod 16 ^ k * 16 + n mod 16"
    by (simp add: digits_val_snoc Suc.IH digit_value_digit_char)
  also have "\<dots> = n mod 16 ^ Suc k"
    by (simp add: mod_mult2_eq mult.commute)
  finally show ?case .
qed

lemma pad_hex_chars: "c \<in> set (pad_hex k n) \<Longrightarrow> hexl c"
  by (induction k arbitrary: n) (auto simp: hexl_digit_char)

lemma hexdigest_top:
  "digits_val 16 (take 8 (hexdigest w)) = unat w div 2 ^ 96"
proof -
  have b: "unat w < 16 ^ 32" using unsigned_less[of w, where 'a = nat] by simp
  then have "hexdigest w = pad_hex (8 + 24) (unat w)" by (simp add: hexdigest_def zfill_hex_of)
  also have "\<dots> = pad_hex 8 (unat w div 16 ^ 24) @ pad_hex 24 (unat w)" by (rule pad_hex_add)
  finally have "take 8 (hexdigest w) = pad_hex 8 (unat w div 16 ^ 24)"
    by (simp add: length_pad_hex)
  then have "digits_val 16 (take 8 (hexdigest w)) = (unat w div 16 ^ 24) mod 16 ^ 8"
    by (simp add: digits_val_pad_hex)
  also from b have "unat w div 16 ^ 24 < 16 ^ 8" by (simp add: less_mult_imp_div_less)
  then have "(unat w div 16 ^ 24) mod 16 ^ 8 = unat w div 16 ^ 24" by simp
  finally show ?thesis by simp
qed

lemma buffered_bytes_replicate: "buffered_bytes (replicate n []) = 0"
  by (simp add: buffered_bytes_def)

lemma buffered_bytes_empty: "\<forall>j < length buf. buf ! j = [] \<Longrightarrow> buffered_bytes buf = 0"
proof -
  assume "\<forall>j < length buf. buf ! j = []"
  then have "\<forall>b \<in> set buf. b = []" by (metis in_set_conv_nth)
  then have "map (\<lambda>b. sum_list (map getsize b)) buf = map (\<lambda>b. 0) buf" by auto
  then show ?thesis by (simp only: buffered_bytes_def) simp
qed

lemma sum_list_update_nat:
  "i < length xs \<Longrightarrow> sum_list (xs[i := (x::nat)]) + xs ! i = sum_list xs + x"
proof (induction xs arbitrary: i)
  case Nil
  then show ?case by simp
next
  case (Cons a xs)
  then show ?case by (cases i) auto
qed

lemma buffered_bytes_append:
  assumes "i < length buf"
  shows "buffered_bytes (buf[i := buf ! i @ [s]]) = buffered_bytes buf + getsize s"
proof -
  let ?f = "\<lambda>b. sum_list (map getsize b)"
  have "map ?f (buf[i := buf ! i @ [s]]) = (map ?f buf)[i := ?f (buf ! i) + getsize s]"
    by (simp add: map_update)
  moreover have "sum_list ((map ?f buf)[i := ?f (buf ! i) + getsize s]) + (map ?f buf) ! i =
      sum_list (map ?f buf) + (?f (buf ! i) + getsize s)"
    using assms by (intro sum_list_update_nat) simp
  ultimately show ?thesis using assms by (simp add: buffered_bytes_def)
qed

lemma getsize_canonical_line: "canonical_form c \<Longrightarrow> getsize (c @ [10]) = length c + 1"
proof -
  assume "canonical_form c"
  then have "\<forall>ch \<in> set (c @ [10]). ch < 128" using canonical_form_ascii by auto
  then have "getsize (c @ [10]) = length (c @ [10])" by (rule getsize_ascii)
  then show ?thesis by simp
qed

lemma partition_line_succeeds:
  assumes "all_ok env" and "strip line \<noteq> []" and "ipv6_to_canonical (strip line) = Inr c"
  shows "\<exists>st' d'. partition_line env fhs line st d = (Inr st', d')"
proof -
  from assms(3) have "canonical_form c" by (auto simp: canonical_form_def)
  then obtain idx where idx: "partition_index env c = Inr idx"
    by (simp add: partition_index_canonical)
  let ?buf = "(buffer st)[idx := buffer st ! idx @ [c @ [10]]]"
  from flush_buffers_succeeds[OF assms(1), of "enumerate_list fhs" ?buf d] obtain buf' d' where
    "flush_buffers env (enumerate_list fhs) ?buf d = (Inr buf', d')" by blast
  with assms(2,3) idx show ?thesis by (simp add: partition_line_def Let_def)
qed

lemma partition_line_step:
  assumes len: "length (buffer st) = NUM_PARTITIONS"
    and size: "buffer_size st = buffered_bytes (buffer st)"
    and ne: "strip line \<noteq> []" and c: "ipv6_to_canonical (strip line) = Inr c"
    and idx: "partition_index env c = Inr idx"
    and step: "partition_line env partition_paths line st d = (Inr st', d')"
  shows "let buf = (buffer st)[idx := buffer st ! idx @ [c @ [10]]] in
           if CHUNK_WRITE_SIZE \<le> buffered_bytes buf
           then buffer_size st' = 0 \<and> length (buffer st') = NUM_PARTITIONS \<and>
                (\<forall>i < NUM_PARTITIONS. buffer st' ! i = [] \<and>
                   file_text d' (partition_name i) = file_text d (partition_name i) @ concat (buf ! i))
           else buffer st' = buf \<and> d' = d \<and> buffer_size st' = buffered_bytes buf"
proof -
  let ?buf = "(buffer st)[idx := buffer st ! idx @ [c @ [10]]]"
  from c have cf: "canonical_form c" by (auto simp: canonical_form_def)
  from idx have il: "idx < length (buffer st)" using partition_index_bound len by simp
  have bytes: "buffered_bytes ?buf = buffer_size st + (length c + 1)"
    using il cf by (simp add: buffered_bytes_append getsize_canonical_line size)
  show ?thesis
  proof (cases "CHUNK_WRITE_SIZE \<le> buffered_bytes ?buf")
    case True
    with bytes have ge: "buffer_size st + (length c + 1) \<ge> CHUNK_WRITE_SIZE" by simp
    from step ne c idx ge obtain buf' where
      f: "flush_buffers env (enumerate_list partition_paths) ?buf d = (Inr buf', d')"
      and st': "st' = \<lparr>buffer = buf', buffer_size = 0\<rparr>"
      by (auto simp: partition_line_def Let_def split: prod.splits sum.splits)
    have l: "\<forall>i \<in> set [0 ..< NUM_PARTITIONS]. i < length ?buf" using len by simp
    from f have f': "flush_buffers env (map (\<lambda>i. (i, partition_name i)) [0 ..< NUM_PARTITIONS]) ?buf d =
        (Inr buf', d')" by (simp add: enumerate_partition_paths)
    from flush_buffers_props[OF f' _ l] have
      1: "length buf' = length ?buf"
      and 2: "\<forall>j < length ?buf. buf' ! j = (if j \<in> set [0 ..< NUM_PARTITIONS] then [] else ?buf ! j)"
      and 3: "\<forall>i \<in> set [0 ..< NUM_PARTITIONS]. file_text d' (partition_name i) =
                file_text d (partition_name i) @ concat (?buf ! i)"
      by simp_all
    from 2 len have e: "\<forall>i < NUM_PARTITIONS. buf' ! i = []" by simp
    from 3 have w: "\<forall>i < NUM_PARTITIONS. file_text d' (partition_name i) =
                file_text d (partition_name i) @ concat (?buf ! i)" by simp
    from True st' 1 len e w show ?thesis by (simp add: Let_def)
  next
    case False
    with bytes have lt: "\<not> buffer_size st + (length c + 1) \<ge> CHUNK_WRITE_SIZE" by simp
    from step ne c idx lt have "st' = \<lparr>buffer = ?buf, buffer_size = buffer_size st + (length c + 1)\<rparr>"
      and "d' = d"
      by (auto simp: partition_line_def Let_def split: prod.splits sum.splits)
    with False bytes show ?thesis by (simp add: Let_def)
  qed
qed

lemma partition_line_inv:
  assumes inv: "buffers_inv st"
    and step: "partition_line env partition_paths line st d = (Inr st', d')"
  shows "buffers_inv st'"
proof (cases "strip line = []")
  case True
  with step inv show ?thesis by (simp add: partition_line_blank)
next
  case False
  from step False obtain c where c: "ipv6_to_canonical (strip line) = Inr c"
    by (cases "ipv6_to_canonical (strip line)") (simp_all add: partition_line_invalid)
  from step False c obtain idx where idx: "partition_index env c = Inr idx"
    by (cases "partition_index env c") (simp_all add: partition_line_def Let_def)
  from inv have len: "length (buffer st) = NUM_PARTITIONS"
    and size: "buffer_size st = buffered_bytes (buffer st)" by (simp_all add: buffers_inv_def)
  let ?buf = "(buffer st)[idx := buffer st ! idx @ [c @ [10]]]"
  note s = partition_line_step[OF len size False c idx step]
  show ?thesis
  proof (cases "CHUNK_WRITE_SIZE \<le> buffered_bytes ?buf")
    case True
    with s have z: "buffer_size st' = 0" and l: "length (buffer st') = NUM_PARTITIONS"
      and e: "\<forall>i < NUM_PARTITIONS. buffer st' ! i = []" by (simp_all add: Let_def)
    from e l have "buffered_bytes (buffer st') = 0" by (intro buffered_bytes_empty) simp
    with z l show ?thesis by (simp add: buffers_inv_def CHUNK_WRITE_SIZE_def)
  next
    case False
    with s have "buffer st' = ?buf" and "buffer_size st' = buffered_bytes ?buf"
      by (simp_all add: Let_def)
    with False len show ?thesis by (simp add: buffers_inv_def)
  qed
qed

lemma partition_loop_inv:
  "buffers_inv st \<Longrightarrow> partition_loop env partition_paths lines st d = (Inr st', d') \<Longrightarrow>
   buffers_inv st'"
proof (induction lines arbitrary: st d)
  case Nil
  then show ?case by simp
next
  case (Cons line lines)
  from Cons.prems(2) obtain st1 d1 where
    s: "partition_line env partition_paths line st d = (Inr st1, d1)"
    and r: "partition_loop env partition_paths lines st1 d1 = (Inr st', d')"
    by (auto split: prod.splits sum.splits)
  from Cons.prems(1) s have "buffers_inv st1" by (rule partition_line_inv)
  from Cons.IH[OF this r] show ?case .
qed

lemma buffers_inv_initial:
  "buffers_inv \<lparr>buffer = replicate NUM_PARTITIONS [], buffer_size = 0\<rparr>"
  by (simp add: buffers_inv_def buffered_bytes_replicate CHUNK_WRITE_SIZE_def)

lemma length_groups16: "length (groups16 k v) = k"
  by (induction k arbitrary: v) auto

lemma groups16_bound: "h \<in> set (groups16 k v) \<Longrightarrow> h < 65536"
  by (induction k arbitrary: v) auto

lemma foldl_groups16:
  "foldl (\<lambda>a h. a * 65536 + h) 0 (groups16 k v) = v mod 65536 ^ k"
proof (induction k arbitrary: v)
  case 0
  then show ?case by simp
next
  case (Suc k)
  have "foldl (\<lambda>a h. a * 65536 + h) 0 (groups16 (Suc k) v) =
      (v div 65536) mod 65536 ^ k * 65536 + v mod 65536"
    by (simp add: Suc.IH)
  also have "\<dots> = v mod 65536 ^ Suc k"
    by (simp add: mod_mult2_eq mult.commute)
  finally show ?case .
qed

lemma pad_hex_mod: "pad_hex k (v mod 16 ^ k) = pad_hex k v"
proof (induction k arbitrary: v)
  case 0
  then show ?case by simp
next
  case (Suc k)
  have "(v mod 16 ^ Suc k) div 16 = (v div 16) mod 16 ^ k"
    by (simp add: mod_mult2_eq)
  moreover have "(v mod 16 ^ Suc k) mod 16 = v mod 16"
    by (simp add: mod_mod_cancel)
  ultimately show ?case using Suc.IH[of "v div 16"] by simp
qed

lemma pad_hex_groups16: "pad_hex (4 * k) v = concat (map (pad_hex 4) (groups16 k v))"
proof (induction k arbitrary: v)
  case 0
  then show ?case by simp
next
  case (Suc k)
  have "pad_hex (4 * Suc k) v = pad_hex (4 * k + 4) v" by (simp add: add.commute)
  also have "\<dots> = pad_hex (4 * k) (v div 16 ^ 4) @ pad_hex 4 v" by (rule pad_hex_add)
  also have "pad_hex 4 v = pad_hex 4 (v mod 65536)" using pad_hex_mod[of 4 v] by simp
  finally show ?case using Suc.IH[of "v div 65536"] by simp
qed

lemma list8:
  "length xs = 8 \<Longrightarrow> \<exists>a b c d e f g h. xs = [a, b, c, d, e, f, g, h]"
  by (auto simp: eval_nat_numeral length_Suc_conv)

lemma hex_groups_eq:
  assumes "v < 2 ^ 128"
  shows "hex_groups v = map (pad_hex 4) (groups16 8 v)"
proof -
  from assms have "v < 16 ^ 32" by simp
  then have "zfill 32 (hex_of v) = pad_hex (4 * 8) v" by (simp add: zfill_hex_of)
  then have s: "zfill 32 (hex_of v) = concat (map (pad_hex 4) (groups16 8 v))"
    by (simp only: pad_hex_groups16)
  from list8[OF length_groups16[of 8 v]] obtain a b c d e f g h where
    g: "groups16 8 v = [a, b, c, d, e, f, g, h]" by blast
  show ?thesis unfolding hex_groups_def Let_def s g by (simp add: length_pad_hex)
qed






lemma py_int_pad_hex: "0 < k \<Longrightarrow> py_int (pad_hex k v) 16 = Inr (v mod 16 ^ k)"
proof -
  assume "0 < k"
  then have "pad_hex k v \<noteq> []" using length_pad_hex[of k v] by auto
  then show ?thesis using pad_hex_chars by (simp add: py_int_hex_digits digits_val_pad_hex)
qed

lemma short_hextets_pad:
  "\<forall>h \<in> set hs. h < 65536 \<Longrightarrow> short_hextets (map (pad_hex 4) hs) = Inr (map hex_of hs)"
  by (induction hs) (auto simp: py_int_pad_hex)

lemma string_from_ip_int_eq:
  assumes "v < 2 ^ 128"
  shows "string_from_ip_int v =
           Inr (join 58 (compress_hextets (map hex_of (groups16 8 v))))"
proof -
  have "short_hextets (hex_groups v) = Inr (map hex_of (groups16 8 v))"
    using assms groups16_bound by (simp add: hex_groups_eq short_hextets_pad)
  with assms show ?thesis by (simp add: string_from_ip_int_def)
qed

lemma groups16_value: "v < 2 ^ 128 \<Longrightarrow> foldl (\<lambda>a h. a * 65536 + h) 0 (groups16 8 v) = v"
  by (simp add: foldl_groups16)

lemma split_no_sep: "sep \<notin> set p \<Longrightarrow> split sep p = [p]"
  by (induction p) auto

lemma split_append_sep: "sep \<notin> set p \<Longrightarrow> split sep (p @ sep # rest) = p # split sep rest"
  by (induction p) auto

lemma split_join:
  "ps \<noteq> [] \<Longrightarrow> \<forall>p \<in> set ps. sep \<notin> set p \<Longrightarrow> split sep (join sep ps) = ps"
proof (induction sep ps rule: join.induct)
  case (1 sep)
  then show ?case by simp
next
  case (2 sep p)
  then show ?case by (simp add: split_no_sep)
next
  case (3 sep p q ps)
  then have "split sep (join sep (q # ps)) = q # ps" by simp
  moreover from 3 have "sep \<notin> set p" by simp
  ultimately show ?case by (simp add: split_append_sep)
qed

lemma hex_of_nonempty: "hex_of h \<noteq> []"
  using length_hex_of_pos[of h] by auto

lemma hex_of_zero: "hex_of 0 = [48]"
  by (simp add: hex_of.simps digit_char_def)

lemma hex_of_eq_zero: "hex_of h = [48] \<Longrightarrow> h = 0"
proof -
  assume "hex_of h = [48]"
  then have "digits_val 16 (hex_of h) = digits_val 16 (hex_of 0)" by (simp add: hex_of_zero)
  then show ?thesis by (simp only: digits_val_hex_of)
qed

lemma length_hex_of: "0 < k \<Longrightarrow> h < 16 ^ k \<Longrightarrow> length (hex_of h) \<le> k"
proof (induction k arbitrary: h)
  case 0
  then show ?case by simp
next
  case (Suc k)
  show ?case
  proof (cases "h < 16")
    case True
    then show ?thesis by (simp add: hex_of.simps)
  next
    case False
    with Suc.prems have k: "0 < k" by (cases k) auto
    from Suc.prems have "h div 16 < 16 ^ k" by (simp add: less_mult_imp_div_less mult.commute)
    with Suc.IH k have "length (hex_of (h div 16)) \<le> k" by simp
    with False show ?thesis by (simp add: hex_of.simps[of h])
  qed
qed

lemma hexl_HEX_DIGITS: "hexl c \<Longrightarrow> c \<in> HEX_DIGITS"
proof -
  assume "hexl c"
  then have "c \<in> {48, 49, 50, 51, 52, 53, 54, 55, 56, 57, 97, 98, 99, 100, 101, 102}"
    unfolding hexl_def by (simp; arith)
  then show ?thesis by (auto simp: HEX_DIGITS_def py_def)
qed

lemma parse_hextet_hex_of: "h < 65536 \<Longrightarrow> parse_hextet (hex_of h) = Inr h"
proof -
  assume h: "h < 65536"
  then have "length (hex_of h) \<le> 4" using length_hex_of[of 4 h] by simp
  moreover have "set (hex_of h) \<subseteq> HEX_DIGITS" using hex_of_chars hexl_HEX_DIGITS by blast
  moreover have "py_int (hex_of h) 16 = Inr h"
    using hex_of_chars by (simp add: py_int_hex_digits hex_of_nonempty digits_val_hex_of)
  ultimately show ?thesis by (simp add: parse_hextet_def)
qed

lemma shift_or: "h < 65536 \<Longrightarrow> push_bit 16 a OR h = a * 65536 + (h::nat)"
proof -
  assume "h < 65536"
  then have t: "take_bit 16 h = h" by (simp add: take_bit_nat_eq_self)
  have "push_bit 16 a AND take_bit 16 h = 0"
    by (auto simp: bit_eq_iff bit_simps)
  then have "push_bit 16 a + take_bit 16 h = push_bit 16 a OR take_bit 16 h"
    by (rule disjunctive_add_eq_or)
  with t show ?thesis by (simp add: push_bit_eq_mult)
qed

lemma parse_hextets_values:
  "\<forall>h \<in> set hs. h < 65536 \<Longrightarrow>
   parse_hextets acc (map hex_of hs) = Inr (foldl (\<lambda>a h. a * 65536 + h) acc hs)"
  by (induction hs arbitrary: acc) (auto simp: parse_hextet_hex_of shift_or)

lemma find_skip_index_none:
  "\<forall>i \<in> set ixs. parts ! i \<noteq> [] \<Longrightarrow> find_skip_index parts ixs acc = Inr acc"
  by (induction ixs arbitrary: acc) auto

lemma find_skip_index_one:
  "parts ! k = [] \<Longrightarrow> \<forall>i \<in> set ixs1. parts ! i \<noteq> [] \<Longrightarrow> \<forall>i \<in> set ixs2. parts ! i \<noteq> [] \<Longrightarrow>
   find_skip_index parts (ixs1 @ k # ixs2) None = Inr (Some k)"
  by (induction ixs1) (auto simp: find_skip_index_none)

lemma scan_inv_step:
  assumes "scan_inv hs n st"
  shows "scan_inv hs (Suc n) (scan_hextet st (n, hs ! n))"
proof (cases "hs ! n = [48]")
  case True
  let ?len = "doublecolon_len st + 1"
  let ?start = "if doublecolon_start st = None then Some n else doublecolon_start st"
  from assms have l: "doublecolon_len st \<le> n"
    and z: "\<forall>j. n - doublecolon_len st \<le> j \<and> j < n \<longrightarrow> hs ! j = [48]"
    and s: "doublecolon_start st =
       (if doublecolon_len st = 0 then None else Some (n - doublecolon_len st))"
    and b: "best_doublecolon_len st = 0 \<or>
      (\<exists>bs. best_doublecolon_start st = Some bs \<and> bs + best_doublecolon_len st \<le> n \<and>
            (\<forall>j. bs \<le> j \<and> j < bs + best_doublecolon_len st \<longrightarrow> hs ! j = [48]))"
    by (simp_all add: scan_inv_def)
  from s l have start: "?start = Some (Suc n - ?len)" by auto
  have zeros: "\<forall>j. Suc n - ?len \<le> j \<and> j < Suc n \<longrightarrow> hs ! j = [48]"
    using z True by (auto simp: less_Suc_eq)
  show ?thesis
  proof (cases "?len > best_doublecolon_len st")
    case True
    then have "scan_hextet st (n, hs ! n) =
        \<lparr>best_doublecolon_start = ?start, best_doublecolon_len = ?len,
         doublecolon_start = ?start, doublecolon_len = ?len\<rparr>"
      using \<open>hs ! n = [48]\<close> by (simp add: scan_hextet_def Let_def)
    moreover have "Suc n - ?len + ?len \<le> Suc n" using l by simp
    ultimately show ?thesis
      unfolding scan_inv_def using l start zeros by (simp del: One_nat_def)
  next
    case False
    then have e: "scan_hextet st (n, hs ! n) = st\<lparr>doublecolon_start := ?start, doublecolon_len := ?len\<rparr>"
      using \<open>hs ! n = [48]\<close> by (simp add: scan_hextet_def Let_def)
    from b have "best_doublecolon_len st = 0 \<or>
      (\<exists>bs. best_doublecolon_start st = Some bs \<and> bs + best_doublecolon_len st \<le> Suc n \<and>
            (\<forall>j. bs \<le> j \<and> j < bs + best_doublecolon_len st \<longrightarrow> hs ! j = [48]))"
      by auto
    then show ?thesis
      unfolding scan_inv_def e using l start zeros by (simp del: One_nat_def)
  qed
next
  case False
  then have e: "scan_hextet st (n, hs ! n) = st\<lparr>doublecolon_start := None, doublecolon_len := 0\<rparr>"
    by (simp add: scan_hextet_def)
  from assms have "best_doublecolon_len st = 0 \<or>
      (\<exists>bs. best_doublecolon_start st = Some bs \<and> bs + best_doublecolon_len st \<le> Suc n \<and>
            (\<forall>j. bs \<le> j \<and> j < bs + best_doublecolon_len st \<longrightarrow> hs ! j = [48]))"
    by (auto simp: scan_inv_def)
  then show ?thesis unfolding scan_inv_def e by auto
qed

lemma scan_inv_fold:
  "n \<le> length hs \<Longrightarrow>
   scan_inv hs n (foldl scan_hextet
     \<lparr>best_doublecolon_start = None, best_doublecolon_len = 0,
      doublecolon_start = None, doublecolon_len = 0\<rparr> (zip [0 ..< n] (take n hs)))"
proof (induction n)
  case 0
  then show ?case by (simp add: scan_inv_def)
next
  case (Suc n)
  then have n: "n < length hs" by simp
  then have "zip [0 ..< Suc n] (take (Suc n) hs) = zip [0 ..< n] (take n hs) @ [(n, hs ! n)]"
    by (simp add: take_Suc_conv_app_nth)
  moreover from Suc have "scan_inv hs n (foldl scan_hextet
     \<lparr>best_doublecolon_start = None, best_doublecolon_len = 0,
      doublecolon_start = None, doublecolon_len = 0\<rparr> (zip [0 ..< n] (take n hs)))" by simp
  ultimately show ?case using scan_inv_step by simp
qed

lemma compress_hextets_cases:
  "compress_hextets hs = hs \<or>
   (\<exists>bs be. bs + 2 \<le> be \<and> be \<le> length hs \<and> (\<forall>j. bs \<le> j \<and> j < be \<longrightarrow> hs ! j = [48]) \<and>
      compress_hextets hs =
        (if bs = 0 then [[]] else []) @ take bs hs @ [[]] @
        (if be = length hs then [[]] else drop be hs))"
proof -
  let ?st = "foldl scan_hextet
     \<lparr>best_doublecolon_start = None, best_doublecolon_len = 0,
      doublecolon_start = None, doublecolon_len = 0\<rparr> (zip [0 ..< length hs] hs)"
  have inv: "scan_inv hs (length hs) ?st" using scan_inv_fold[of "length hs" hs] by simp
  show ?thesis
  proof (cases "best_doublecolon_len ?st > 1")
    case False
    then show ?thesis by (simp add: compress_hextets_def Let_def)
  next
    case True
    with inv obtain bs where bs: "best_doublecolon_start ?st = Some bs"
      and le: "bs + best_doublecolon_len ?st \<le> length hs"
      and z: "\<forall>j. bs \<le> j \<and> j < bs + best_doublecolon_len ?st \<longrightarrow> hs ! j = [48]"
      by (auto simp: scan_inv_def)
    let ?be = "bs + best_doublecolon_len ?st"
    from True le have lt: "bs < length hs" by simp
    have "compress_hextets hs =
        (if bs = 0 then [[]] else []) @ take bs hs @ [[]] @
        (if ?be = length hs then [[]] else drop ?be hs)"
      using True bs lt by (simp add: compress_hextets_def Let_def)
    moreover from True have "bs + 2 \<le> ?be" by simp
    ultimately show ?thesis using le z by blast
  qed
qed

lemma shift_hextets: "push_bit (16 * k) (a::nat) = a * 65536 ^ k"
proof -
  have "(2::nat) ^ (16 * k) = (2 ^ 16) ^ k" by (rule power_mult)
  then show ?thesis by (simp add: push_bit_eq_mult)
qed

lemma foldl_zeros: "foldl (\<lambda>a h. a * 65536 + h) a (replicate k (0::nat)) = a * 65536 ^ k"
  by (induction k arbitrary: a) (auto simp: mult.assoc)

lemma foldl_zero_run:
  assumes "bs \<le> be" and "be \<le> length vs" and "\<forall>j. bs \<le> j \<and> j < be \<longrightarrow> vs ! j = (0::nat)"
  shows "foldl (\<lambda>a h. a * 65536 + h) a vs =
     foldl (\<lambda>a h. a * 65536 + h) (foldl (\<lambda>a h. a * 65536 + h) a (take bs vs) * 65536 ^ (be - bs))
       (drop be vs)"
proof -
  have mid: "take (be - bs) (drop bs vs) = replicate (be - bs) 0"
  proof (rule nth_equalityI)
    show "length (take (be - bs) (drop bs vs)) = length (replicate (be - bs) (0::nat))"
      using assms(1,2) by simp
  next
    fix i assume "i < length (take (be - bs) (drop bs vs))"
    then have i: "i < be - bs" by simp
    with assms(2) have "take (be - bs) (drop bs vs) ! i = vs ! (bs + i)" by simp
    also from i assms(3) have "\<dots> = 0" by simp
    finally show "take (be - bs) (drop bs vs) ! i = replicate (be - bs) 0 ! i" using i by simp
  qed
  have "drop (be - bs) (drop bs vs) = drop be vs" using assms(1) by simp
  then have "vs = take bs vs @ take (be - bs) (drop bs vs) @ drop be vs"
    by (metis append_take_drop_id)
  then have "vs = take bs vs @ replicate (be - bs) 0 @ drop be vs" by (simp only: mid)
  then have "foldl (\<lambda>a h. a * 65536 + h) a vs =
      foldl (\<lambda>a h. a * 65536 + h) a (take bs vs @ replicate (be - bs) 0 @ drop be vs)" by simp
  then show ?thesis by (simp only: foldl_append foldl_zeros)
qed

lemma nonempty_hexes: "p \<in> set (map hex_of vs) \<Longrightarrow> p \<noteq> []"
  by (auto simp: hex_of_nonempty)

lemma parse_uncompressed:
  assumes "length vs = 8" and "\<forall>h \<in> set vs. h < 65536"
  shows "v6_parts_to_int (map hex_of vs) = Inr (foldl (\<lambda>a h. a * 65536 + h) 0 vs)"
proof -
  let ?parts = "map hex_of vs"
  from assms(1) have ne: "?parts \<noteq> []" by auto
  have "\<forall>i \<in> set [1 ..< length ?parts - 1]. ?parts ! i \<noteq> []"
    by (auto simp: hex_of_nonempty)
  then have f: "find_skip_index ?parts [1 ..< length ?parts - 1] None = Inr None"
    by (rule find_skip_index_none)
  from ne have "hd ?parts \<in> set ?parts" by (rule hd_in_set)
  then have h: "hd ?parts \<noteq> []" by (rule nonempty_hexes)
  from ne have "last ?parts \<in> set ?parts" by (rule last_in_set)
  then have l: "last ?parts \<noteq> []" by (rule nonempty_hexes)
  note hl = h l
  have "parse_hextets 0 ?parts = Inr (foldl (\<lambda>a h. a * 65536 + h) 0 vs)"
    using assms(2) by (rule parse_hextets_values)
  with f hl assms(1) show ?thesis by (simp add: v6_parts_to_int_def as_address_error_def)
qed

lemma parse_all_zero: "v6_parts_to_int [[], [], []] = Inr 0"
  by (simp add: v6_parts_to_int_def as_address_error_def)

lemma parse_leading_run:
  assumes "vb \<noteq> []" and "\<forall>h \<in> set vb. h < 65536" and "length vb \<le> 6"
  shows "v6_parts_to_int ([] # [] # map hex_of vb) =
           Inr (foldl (\<lambda>a h. a * 65536 + h) 0 vb)"
proof -
  let ?B = "map hex_of vb"
  let ?parts = "[] # [] # ?B"
  let ?nb = "length vb"
  from assms(1) have nb: "0 < ?nb" by simp
  have len: "length ?parts = ?nb + 2" by simp
  have "[1 ..< Suc ?nb] = 1 # [Suc 1 ..< Suc ?nb]"
    using nb by (intro upt_conv_Cons) simp
  then have r: "[1 ..< length ?parts - 1] = [] @ 1 # [Suc 1 ..< Suc ?nb]"
    by (simp del: upt_Suc)
  have k: "?parts ! 1 = []" by simp
  have o: "\<forall>i \<in> set [Suc 1 ..< Suc ?nb]. ?parts ! i \<noteq> []"
  proof
    fix i assume "i \<in> set [Suc 1 ..< Suc ?nb]"
    then have "2 \<le> i" and "i - 2 < ?nb" by auto
    then have "?parts ! i = hex_of (vb ! (i - 2))"
      by (simp add: nth_Cons' numeral_2_eq_2)
    then show "?parts ! i \<noteq> []" by (simp add: hex_of_nonempty)
  qed
  have f: "find_skip_index ?parts [1 ..< length ?parts - 1] None = Inr (Some 1)"
    unfolding r using k _ o by (rule find_skip_index_one) simp
  from assms(1) have bne: "?B \<noteq> []" by simp
  then have "last ?parts = last ?B" by simp
  moreover from bne have "last ?B \<in> set ?B" by (rule last_in_set)
  ultimately have l: "last ?parts \<noteq> []" using nonempty_hexes by metis
  have d: "drop (length ?parts - ?nb) ?parts = ?B" by simp
  have p: "parse_hextets 0 ?B = Inr (foldl (\<lambda>a h. a * 65536 + h) 0 vb)"
    using assms(2) by (rule parse_hextets_values)
  show ?thesis
    using f l assms(3) p
    by (simp add: v6_parts_to_int_def as_address_error_def Let_def)
qed

lemma parse_trailing_run:
  assumes "va \<noteq> []" and "\<forall>h \<in> set va. h < 65536" and "length va \<le> 6"
  shows "v6_parts_to_int (map hex_of va @ [[], []]) =
           Inr (foldl (\<lambda>a h. a * 65536 + h) 0 va * 65536 ^ (8 - length va))"
proof -
  let ?A = "map hex_of va"
  let ?parts = "?A @ [[], []]"
  let ?na = "length va"
  from assms(1) have na: "0 < ?na" by simp
  have len: "length ?parts = ?na + 2" by simp
  from assms(1) have "Suc 0 \<le> ?na" by (cases va) simp_all
  then have "[1 ..< Suc ?na] = [1 ..< ?na] @ [?na]" by (simp only: One_nat_def upt_Suc_append)
  then have r: "[1 ..< length ?parts - 1] = [1 ..< ?na] @ ?na # []"
    by (simp del: upt_Suc)
  have k: "?parts ! ?na = []" by (simp add: nth_append)
  have o: "\<forall>i \<in> set [1 ..< ?na]. ?parts ! i \<noteq> []"
    by (auto simp: nth_append hex_of_nonempty)
  have f: "find_skip_index ?parts [1 ..< length ?parts - 1] None = Inr (Some ?na)"
    unfolding r using k o by (rule find_skip_index_one) simp
  from assms(1) have ane: "?A \<noteq> []" by simp
  then have "hd ?parts = hd ?A" by simp
  moreover from ane have "hd ?A \<in> set ?A" by (rule hd_in_set)
  ultimately have h: "hd ?parts \<noteq> []" using nonempty_hexes by metis
  have l: "last ?parts = []" by simp
  have t: "take ?na ?parts = ?A" by simp
  have p: "parse_hextets 0 ?A = Inr (foldl (\<lambda>a h. a * 65536 + h) 0 va)"
    using assms(2) by (rule parse_hextets_values)
  show ?thesis
    using f h l t assms(3) p
    by (simp add: v6_parts_to_int_def as_address_error_def Let_def shift_hextets del: push_bit_eq_mult)
qed

lemma parse_inner_run:
  assumes "va \<noteq> []" and "vb \<noteq> []" and "\<forall>h \<in> set va. h < 65536" and "\<forall>h \<in> set vb. h < 65536"
    and "length va + length vb \<le> 6"
  shows "v6_parts_to_int (map hex_of va @ [] # map hex_of vb) =
           Inr (foldl (\<lambda>a h. a * 65536 + h)
                  (foldl (\<lambda>a h. a * 65536 + h) 0 va * 65536 ^ (8 - (length va + length vb))) vb)"
proof -
  let ?A = "map hex_of va" and ?B = "map hex_of vb"
  let ?parts = "?A @ [] # ?B"
  let ?na = "length va" and ?nb = "length vb"
  from assms(1,2) have na: "0 < ?na" and nb: "0 < ?nb" by simp_all
  have len: "length ?parts = ?na + ?nb + 1" by simp
  from assms(1) have "1 \<le> ?na" by (cases va) simp_all
  then have "[1 ..< ?na + ?nb] = [1 ..< ?na] @ [?na ..< ?na + ?nb]"
    by (rule upt_add_eq_append)
  also have "[?na ..< ?na + ?nb] = ?na # [Suc ?na ..< ?na + ?nb]"
    using nb by (simp add: upt_conv_Cons)
  finally have r: "[1 ..< length ?parts - 1] = [1 ..< ?na] @ ?na # [Suc ?na ..< ?na + ?nb]"
    by (simp del: upt_Suc)
  have k: "?parts ! ?na = []" by (simp add: nth_append)
  have o1: "\<forall>i \<in> set [1 ..< ?na]. ?parts ! i \<noteq> []"
    by (auto simp: nth_append hex_of_nonempty)
  have o2: "\<forall>i \<in> set [Suc ?na ..< ?na + ?nb]. ?parts ! i \<noteq> []"
  proof
    fix i assume "i \<in> set [Suc ?na ..< ?na + ?nb]"
    then have "Suc ?na \<le> i" and "i < ?na + ?nb" by auto
    then have "?parts ! i = hex_of (vb ! (i - Suc ?na))"
      by (simp add: nth_append nth_Cons' less_diff_conv2)
    then show "?parts ! i \<noteq> []" by (simp add: hex_of_nonempty)
  qed
  have f: "find_skip_index ?parts [1 ..< length ?parts - 1] None = Inr (Some ?na)"
    unfolding r using k o1 o2 by (rule find_skip_index_one)
  from assms(1) have ane: "?A \<noteq> []" by simp
  then have "hd ?parts = hd ?A" by simp
  moreover from ane have "hd ?A \<in> set ?A" by (rule hd_in_set)
  ultimately have h: "hd ?parts \<noteq> []" using nonempty_hexes by metis
  from assms(2) have bne: "?B \<noteq> []" by simp
  then have "last ?parts = last ?B" by simp
  moreover from bne have "last ?B \<in> set ?B" by (rule last_in_set)
  ultimately have l: "last ?parts \<noteq> []" using nonempty_hexes by metis
  have t: "take ?na ?parts = ?A" by simp
  have d: "drop (length ?parts - (length ?parts - ?na - 1)) ?parts = ?B" by simp
  have lo: "length ?parts - ?na - 1 = ?nb" by simp
  have pa: "parse_hextets 0 ?A = Inr (foldl (\<lambda>a h. a * 65536 + h) 0 va)"
    using assms(3) by (rule parse_hextets_values)
  have pb: "\<And>acc. parse_hextets acc ?B = Inr (foldl (\<lambda>a h. a * 65536 + h) acc vb)"
    using assms(4) by (rule parse_hextets_values)
  show ?thesis
    using f h l assms(5)
    by (simp add: v6_parts_to_int_def as_address_error_def Let_def shift_hextets pa pb
        del: push_bit_eq_mult upt_Suc)
qed

lemma compress_hextets_parts:
  "p \<in> set (compress_hextets hs) \<Longrightarrow> p = [] \<or> p \<in> set hs"
proof -
  assume p: "p \<in> set (compress_hextets hs)"
  from compress_hextets_cases[of hs] show ?thesis
  proof
    assume "compress_hextets hs = hs"
    with p show ?thesis by simp
  next
    assume "\<exists>bs be. bs + 2 \<le> be \<and> be \<le> length hs \<and> (\<forall>j. bs \<le> j \<and> j < be \<longrightarrow> hs ! j = [48]) \<and>
      compress_hextets hs =
        (if bs = 0 then [[]] else []) @ take bs hs @ [[]] @
        (if be = length hs then [[]] else drop be hs)"
    then obtain bs be where "compress_hextets hs =
        (if bs = 0 then [[]] else []) @ take bs hs @ [[]] @
        (if be = length hs then [[]] else drop be hs)" by blast
    with p have "p = [] \<or> p \<in> set (take bs hs) \<or> p \<in> set (drop be hs)"
      by (auto split: if_splits)
    then show ?thesis by (meson in_set_takeD in_set_dropD)
  qed
qed

lemma reparse_parts:
  assumes len: "length vs = 8" and bound: "\<forall>h \<in> set vs. h < 65536"
  shows "v6_parts_to_int (compress_hextets (map hex_of vs)) =
           Inr (foldl (\<lambda>a h. a * 65536 + h) 0 vs) \<and>
         3 \<le> length (compress_hextets (map hex_of vs))"
proof -
  let ?hs = "map hex_of vs"
  let ?g = "\<lambda>a h. a * 65536 + (h::nat)"
  from compress_hextets_cases[of ?hs] show ?thesis
  proof
    assume "compress_hextets ?hs = ?hs"
    with len bound show ?thesis by (simp add: parse_uncompressed)
  next
    assume "\<exists>bs be. bs + 2 \<le> be \<and> be \<le> length ?hs \<and> (\<forall>j. bs \<le> j \<and> j < be \<longrightarrow> ?hs ! j = [48]) \<and>
      compress_hextets ?hs =
        (if bs = 0 then [[]] else []) @ take bs ?hs @ [[]] @
        (if be = length ?hs then [[]] else drop be ?hs)"
    then obtain bs be where b1: "bs + 2 \<le> be" and b2: "be \<le> 8"
      and z: "\<forall>j. bs \<le> j \<and> j < be \<longrightarrow> ?hs ! j = [48]"
      and c: "compress_hextets ?hs =
        (if bs = 0 then [[]] else []) @ take bs ?hs @ [[]] @
        (if be = length ?hs then [[]] else drop be ?hs)"
      using len by auto
    let ?va = "take bs vs" and ?vb = "drop be vs"
    have zv: "\<forall>j. bs \<le> j \<and> j < be \<longrightarrow> vs ! j = 0"
    proof (intro allI impI)
      fix j assume j: "bs \<le> j \<and> j < be"
      with b2 len have "j < length vs" by simp
      then have "?hs ! j = hex_of (vs ! j)" by simp
      with z j have "hex_of (vs ! j) = [48]" by simp
      then show "vs ! j = 0" by (rule hex_of_eq_zero)
    qed
    from b1 b2 len have fv: "foldl ?g 0 vs = foldl ?g (foldl ?g 0 ?va * 65536 ^ (be - bs)) ?vb"
      using zv by (intro foldl_zero_run) simp_all
    have la: "length ?va = bs" using b1 b2 len by simp
    have lb: "length ?vb = 8 - be" using len by simp
    have ba: "\<forall>h \<in> set ?va. h < 65536" using bound by (meson in_set_takeD)
    have bb: "\<forall>h \<in> set ?vb. h < 65536" using bound by (meson in_set_dropD)
    have c': "compress_hextets ?hs =
        (if bs = 0 then [[]] else []) @ map hex_of ?va @ [[]] @
        (if be = 8 then [[]] else map hex_of ?vb)"
      using c len by (simp add: take_map drop_map)
    show ?thesis
    proof (cases "bs = 0")
      case True
      show ?thesis
      proof (cases "be = 8")
        case e: True
        with True c' have "compress_hextets ?hs = [[], [], []]" by simp
        moreover from True e fv len have "foldl ?g 0 vs = 0" by simp
        ultimately show ?thesis by (simp add: parse_all_zero)
      next
        case e: False
        with True c' have p: "compress_hextets ?hs = [] # [] # map hex_of ?vb" by simp
        from e b2 lb have ne: "?vb \<noteq> []" by auto
        from b1 lb have "length ?vb \<le> 6" by simp
        moreover from ne have "Suc 0 \<le> length ?vb" by (cases ?vb) simp_all
        ultimately show ?thesis using parse_leading_run[OF ne bb] True fv p by simp
      qed
    next
      case False
      then have ne: "?va \<noteq> []" using la by auto
      show ?thesis
      proof (cases "be = 8")
        case e: True
        with False c' have p: "compress_hextets ?hs = map hex_of ?va @ [[], []]" by simp
        from b1 e la have "length ?va \<le> 6" by simp
        from parse_trailing_run[OF ne ba this] e fv p la len False show ?thesis by simp
      next
        case e: False
        with False c' have p: "compress_hextets ?hs = map hex_of ?va @ [] # map hex_of ?vb" by simp
        from e b2 lb have nb: "?vb \<noteq> []" by auto
        from b1 b2 la lb have l6: "length ?va + length ?vb \<le> 6" by simp
        from b1 b2 la lb have "8 - (length ?va + length ?vb) = be - bs" by simp
        moreover from e b2 False have "2 \<le> bs + (8 - be)" by simp
        ultimately show ?thesis using parse_inner_run[OF ne nb ba bb l6] fv p la lb False by simp
      qed
    qed
  qed
qed

lemma reparse_string:
  assumes len: "length vs = 8" and bound: "\<forall>h \<in> set vs. h < 65536"
  shows "v6_ip_int_from_string (join 58 (compress_hextets (map hex_of vs))) =
           Inr (foldl (\<lambda>a h. a * 65536 + h) 0 vs)"
proof -
  let ?parts = "compress_hextets (map hex_of vs)"
  from reparse_parts[OF len bound] have v: "v6_parts_to_int ?parts =
           Inr (foldl (\<lambda>a h. a * 65536 + h) 0 vs)" and l3: "3 \<le> length ?parts" by simp_all
  have chars: "\<forall>p \<in> set ?parts. \<forall>c \<in> set p. hexl c"
  proof (intro ballI)
    fix p c assume p: "p \<in> set ?parts" and c: "c \<in> set p"
    from p have "p = [] \<or> p \<in> set (map hex_of vs)" by (rule compress_hextets_parts)
    with c obtain h where "p = hex_of h" by auto
    with c show "hexl c" using hex_of_chars by simp
  qed
  then have nc: "\<forall>p \<in> set ?parts. 58 \<notin> set p" by (force simp: hexl_def)
  from l3 have ne: "?parts \<noteq> []" by auto
  then have "last ?parts \<in> set ?parts" by (rule last_in_set)
  with chars have nd: "46 \<notin> set (last ?parts)" by (force simp: hexl_def)
  from l3 have "58 \<in> set (join 58 ?parts)" by (intro join_has_sep) simp
  then have js: "join 58 ?parts \<noteq> []" by auto
  have sp: "split 58 (join 58 ?parts) = ?parts" using ne nc by (rule split_join)
  from js l3 nd v show ?thesis by (simp add: v6_ip_int_from_string_def sp Let_def)
qed

lemma exploded_eq:
  assumes "scope_id a = None" and "ip a < 2 ^ 128"
  shows "exploded a = Inr (join 58 (hex_groups (ip a)))"
proof -
  let ?vs = "groups16 8 (ip a)"
  from assms have s: "str_of_address a = Inr (join 58 (compress_hextets (map hex_of ?vs)))"
    by (simp add: str_of_address_def string_from_ip_int_eq)
  have "v6_ip_int_from_string (join 58 (compress_hextets (map hex_of ?vs))) =
      Inr (foldl (\<lambda>a h. a * 65536 + h) 0 ?vs)"
    using length_groups16 groups16_bound by (intro reparse_string) auto
  also have "foldl (\<lambda>a h. a * 65536 + h) 0 ?vs = ip a" using assms(2) by (rule groups16_value)
  finally show ?thesis using s by (simp add: exploded_def)
qed

text \<open>The parser returns a number below \<open>2 ^ 128\<close>.\<close>

lemma digit_value_bound: "digit_value b c = Some d \<Longrightarrow> d < b"
  by (auto simp: digit_value_def Let_def split: if_splits option.splits)

lemma digits_val_bound:
  "\<forall>c \<in> set s. digit_value 16 c \<noteq> None \<Longrightarrow> digits_val 16 s < 16 ^ length s"
proof (induction s rule: rev_induct)
  case Nil
  then show ?case by (simp add: digits_val_def)
next
  case (snoc c s)
  then obtain d where d: "digit_value 16 c = Some d" by auto
  then have "d < 16" by (rule digit_value_bound)
  moreover from snoc have "digits_val 16 s < 16 ^ length s" by simp
  then have "digits_val 16 s + 1 \<le> 16 ^ length s" by simp
  then have "(digits_val 16 s + 1) * 16 \<le> 16 ^ length s * 16" by (rule mult_le_mono1)
  ultimately show ?case using d by (simp add: digits_val_snoc)
qed

lemma parse_hextet_bound: "parse_hextet p = Inr h \<Longrightarrow> h < 65536"
proof -
  assume a: "parse_hextet p = Inr h"
  then have l: "length p \<le> 4" and i: "py_int p 16 = Inr h"
    by (auto simp: parse_hextet_def split: if_splits)
  from i have nn: "\<forall>c \<in> set p. digit_value 16 c \<noteq> None" and h: "h = digits_val 16 p"
    by (auto simp: py_int_def digits_val_def split: if_splits)
  from nn have "digits_val 16 p < 16 ^ length p" by (rule digits_val_bound)
  also from l have "(16::nat) ^ length p \<le> 16 ^ 4" by (intro power_increasing) simp_all
  finally show ?thesis using h by simp
qed

lemma parse_hextets_bound:
  "parse_hextets acc ps = Inr v \<Longrightarrow> v < (acc + 1) * 65536 ^ length ps"
proof (induction ps arbitrary: acc)
  case Nil
  then show ?case by simp
next
  case (Cons p ps)
  from Cons.prems obtain h where h: "parse_hextet p = Inr h"
    and r: "parse_hextets (push_bit 16 acc OR h) ps = Inr v"
    by (auto split: sum.splits)
  from h have hb: "h < 65536" by (rule parse_hextet_bound)
  then have e: "push_bit 16 acc OR h = acc * 65536 + h" by (rule shift_or)
  from Cons.IH[OF r] have "v < (acc * 65536 + h + 1) * 65536 ^ length ps" by (simp only: e)
  also from hb have "acc * 65536 + h + 1 \<le> (acc + 1) * 65536" by simp
  then have "(acc * 65536 + h + 1) * 65536 ^ length ps \<le> (acc + 1) * 65536 * 65536 ^ length ps"
    by (rule mult_le_mono1)
  finally show ?case by (simp add: algebra_simps)
qed

lemma v6_parts_to_int_bound: "v6_parts_to_int parts = Inr v \<Longrightarrow> v < 2 ^ 128"
proof -
  assume a: "v6_parts_to_int parts = Inr v"
  show ?thesis
  proof (cases "find_skip_index parts [1 ..< length parts - 1] None")
    case (Inl e)
    with a show ?thesis by (simp add: v6_parts_to_int_def split: if_splits)
  next
    case (Inr sk)
    show ?thesis
    proof (cases sk)
      case None
      with a Inr have "length parts = 8" and "parse_hextets 0 parts = Inr v"
        by (auto simp: v6_parts_to_int_def as_address_error_def split: if_splits sum.splits)
      with parse_hextets_bound[of 0 parts v] show ?thesis by simp
    next
      case (Some skip_index)
      define parts_hi where "parts_hi = (if hd parts = [] then skip_index - 1 else skip_index)"
      define parts_lo where "parts_lo = (if last parts = [] then length parts - skip_index - 1 - 1
                           else length parts - skip_index - 1)"
      from a Inr Some obtain ip_int where le: "parts_hi + parts_lo \<le> 7"
        and hi: "parse_hextets 0 (take parts_hi parts) = Inr ip_int"
        and lo: "parse_hextets (push_bit (16 * (8 - (parts_hi + parts_lo))) ip_int)
                       (drop (length parts - parts_lo) parts) = Inr v"
        unfolding parts_hi_def parts_lo_def
        by (auto simp: v6_parts_to_int_def as_address_error_def Let_def
            split: if_splits sum.splits)
      let ?X = "(65536::nat) ^ (8 - (parts_hi + parts_lo))"
      let ?L = "length (drop (length parts - parts_lo) parts)"
      from parse_hextets_bound[OF hi] have "ip_int < 65536 ^ length (take parts_hi parts)" by simp
      also have "(65536::nat) ^ length (take parts_hi parts) \<le> 65536 ^ parts_hi"
        by (intro power_increasing) simp_all
      finally have "ip_int + 1 \<le> 65536 ^ parts_hi" by simp
      then have "(ip_int + 1) * ?X \<le> 65536 ^ parts_hi * ?X" by (rule mult_le_mono1)
      moreover have "ip_int * ?X + 1 \<le> (ip_int + 1) * ?X" by simp
      ultimately have b1: "ip_int * ?X + 1 \<le> 65536 ^ parts_hi * ?X" by (rule order_trans[rotated])
      have "?L \<le> parts_lo" by simp
      then have b2: "(65536::nat) ^ ?L \<le> 65536 ^ parts_lo" by (intro power_increasing) simp_all
      from parse_hextets_bound[OF lo] have "v < (ip_int * ?X + 1) * 65536 ^ ?L"
        by (simp only: shift_hextets)
      also from b1 b2 have "(ip_int * ?X + 1) * 65536 ^ ?L \<le> (65536 ^ parts_hi * ?X) * 65536 ^ parts_lo"
        by (rule mult_le_mono)
      also have "(65536 ^ parts_hi * ?X) * 65536 ^ parts_lo =
          (65536::nat) ^ (parts_hi + (8 - (parts_hi + parts_lo)) + parts_lo)"
        by (simp only: power_add)
      also from le have "parts_hi + (8 - (parts_hi + parts_lo)) + parts_lo = 8" by simp
      finally show ?thesis by simp
    qed
  qed
qed

lemma v6_ip_int_from_string_bound: "v6_ip_int_from_string s = Inr v \<Longrightarrow> v < 2 ^ 128"
  by (auto simp: v6_ip_int_from_string_def Let_def
      split: if_splits sum.splits dest!: v6_parts_to_int_bound)

lemma IPv6Address_bound: "IPv6Address s = Inr a \<Longrightarrow> ip a < 2 ^ 128"
  by (auto simp: IPv6Address_def split: if_splits sum.splits prod.splits
      dest!: v6_ip_int_from_string_bound)

lemma canonical_of_address:
  assumes "IPv6Address (strip x) = Inr a" and "scope_id a = None"
  shows "ipv6_to_canonical x = Inr (join 58 (hex_groups (ip a)))"
proof -
  from assms(1) have "ip a < 2 ^ 128" by (rule IPv6Address_bound)
  with assms(2) have e: "exploded a = Inr (join 58 (hex_groups (ip a)))" by (rule exploded_eq)
  then have "\<forall>c \<in> set (join 58 (hex_groups (ip a))). canon_char c" by (simp add: exploded_chars)
  then have "lower (join 58 (hex_groups (ip a))) = join 58 (hex_groups (ip a))" by (rule lower_canon)
  with assms(1) e show ?thesis by (simp add: ipv6_to_canonical_def)
qed

text \<open>
  The parser accepts no \<open>'%'\<close>: every part between colons is empty, a hextet or the
  dotted suffix. So \<open>exploded\<close>, which parses \<open>str(self)\<close> again, fails on an address
  with a zone.
\<close>

lemma split_covers: "c \<in> set s \<Longrightarrow> c \<noteq> sep \<Longrightarrow> \<exists>p \<in> set (split sep s). c \<in> set p"
proof (induction s)
  case Nil
  then show ?case by simp
next
  case (Cons d s)
  then show ?case by (cases "split sep s") (auto split: if_splits)
qed

lemma split_nonempty: "split sep s \<noteq> []"
  by (cases s) (auto split: list.splits)

lemma percent_not_hex: "37 \<notin> HEX_DIGITS"
  by (simp add: HEX_DIGITS_def py_def)

lemma parse_hextets_hex:
  "parse_hextets acc ps = Inr v \<Longrightarrow> p \<in> set ps \<Longrightarrow> set p \<subseteq> HEX_DIGITS"
proof (induction ps arbitrary: acc)
  case Nil
  then show ?case by simp
next
  case (Cons q ps)
  from Cons.prems(1) obtain h where h: "parse_hextet q = Inr h"
    and r: "parse_hextets (push_bit 16 acc OR h) ps = Inr v"
    by (auto split: sum.splits)
  from h have "set q \<subseteq> HEX_DIGITS" by (simp add: parse_hextet_def split: if_splits)
  with Cons.IH[OF r] Cons.prems(2) show ?case by auto
qed

lemma find_skip_index_some:
  "find_skip_index parts ixs acc = Inr (Some k) \<Longrightarrow> acc = Some k \<or> (k \<in> set ixs \<and> parts ! k = [])"
  by (induction ixs arbitrary: acc) (auto split: if_splits)

lemma v6_parts_to_int_hex:
  assumes a: "v6_parts_to_int parts = Inr v" and p: "p \<in> set parts"
  shows "p = [] \<or> set p \<subseteq> HEX_DIGITS"
proof (cases "find_skip_index parts [1 ..< length parts - 1] None")
  case (Inl e)
  with a show ?thesis by (simp add: v6_parts_to_int_def split: if_splits)
next
  case (Inr sk)
  show ?thesis
  proof (cases sk)
    case None
    with a Inr have "parse_hextets 0 parts = Inr v"
      by (auto simp: v6_parts_to_int_def as_address_error_def split: if_splits sum.splits)
    with p show ?thesis by (auto dest: parse_hextets_hex)
  next
    case (Some skip_index)
    from Inr Some have sk: "1 \<le> skip_index" "skip_index < length parts - 1" "parts ! skip_index = []"
      by (auto dest!: find_skip_index_some)
    define parts_hi where "parts_hi = (if hd parts = [] then skip_index - 1 else skip_index)"
    define parts_lo where "parts_lo = (if last parts = [] then length parts - skip_index - 1 - 1
                         else length parts - skip_index - 1)"
    from a Inr Some obtain ip_int where
          h0: "hd parts = [] \<longrightarrow> parts_hi = 0"
      and l0: "last parts = [] \<longrightarrow> parts_lo = 0"
      and hi: "parse_hextets 0 (take parts_hi parts) = Inr ip_int"
      and lo: "parse_hextets (push_bit (16 * (8 - (parts_hi + parts_lo))) ip_int)
                     (drop (length parts - parts_lo) parts) = Inr v"
      unfolding parts_hi_def parts_lo_def
      by (auto simp: v6_parts_to_int_def as_address_error_def Let_def
          split: if_splits sum.splits)
    from p obtain i where i: "i < length parts" and pi: "p = parts ! i"
      by (auto simp: in_set_conv_nth)
    from sk have ne: "parts \<noteq> []" by auto
    consider "i < parts_hi" | "length parts - parts_lo \<le> i" | "parts_hi \<le> i" "i < length parts - parts_lo"
      by linarith
    then show ?thesis
    proof cases
      case 1
      with i pi have "p \<in> set (take parts_hi parts)" by (auto simp: in_set_conv_nth)
      with hi show ?thesis by (auto dest: parse_hextets_hex)
    next
      case 2
      with i have "i - (length parts - parts_lo) < length (drop (length parts - parts_lo) parts)"
        and "drop (length parts - parts_lo) parts ! (i - (length parts - parts_lo)) = parts ! i"
        by simp_all
      with pi have "p \<in> set (drop (length parts - parts_lo) parts)"
        unfolding in_set_conv_nth by blast
      with lo show ?thesis by (auto dest: parse_hextets_hex)
    next
      case 3
      have "i = 0 \<and> hd parts = [] \<or> i = skip_index \<or> i = length parts - 1 \<and> last parts = []"
        using 3 sk i h0 l0 unfolding parts_hi_def parts_lo_def
        by (auto split: if_splits)
      with sk ne pi show ?thesis by (auto simp: hd_conv_nth last_conv_nth)
    qed
  qed
qed

lemma parse_octet_digits: "parse_octet s = Inr b \<Longrightarrow> c \<in> set s \<Longrightarrow> 48 \<le> c \<and> c \<le> 57"
  by (auto simp: parse_octet_def split: if_splits)

lemma octets_to_int_digits:
  "octets_to_int acc os = Inr v \<Longrightarrow> ot \<in> set os \<Longrightarrow> c \<in> set ot \<Longrightarrow> 48 \<le> c \<and> c \<le> 57"
proof (induction os arbitrary: acc)
  case Nil
  then show ?case by simp
next
  case (Cons q os)
  from Cons.prems(1) obtain b where b: "parse_octet q = Inr b"
    and r: "octets_to_int (acc * 256 + b) os = Inr v"
    by (auto split: sum.splits)
  from Cons.prems(2) consider "ot = q" | "ot \<in> set os" by auto
  then show ?case
  proof cases
    case 1
    with b Cons.prems(3) show ?thesis by (auto dest: parse_octet_digits)
  next
    case 2
    with Cons.IH[OF r] Cons.prems(3) show ?thesis by simp
  qed
qed

lemma IPv4Address_no_percent: "IPv4Address s = Inr v \<Longrightarrow> 37 \<notin> set s"
proof
  assume a: "IPv4Address s = Inr v" and c: "37 \<in> set s"
  from a have o: "octets_to_int 0 (split 46 s) = Inr v"
    by (auto simp: IPv4Address_def v4_ip_int_from_string_def Let_def as_address_error_def
        split: if_splits sum.splits)
  from c have "\<exists>p \<in> set (split 46 s). 37 \<in> set p" by (rule split_covers) simp
  then obtain p where "p \<in> set (split 46 s)" and "37 \<in> set p" by auto
  with o have "48 \<le> (37::nat) \<and> (37::nat) \<le> 57" by (rule octets_to_int_digits)
  then show False by simp
qed

lemma v6_ip_int_from_string_no_percent:
  assumes a: "v6_ip_int_from_string s = Inr v"
  shows "37 \<notin> set s"
proof
  assume c: "37 \<in> set s"
  then have "\<exists>p \<in> set (split 58 s). 37 \<in> set p" by (rule split_covers) simp
  then obtain p where p: "p \<in> set (split 58 s)" and cp: "37 \<in> set p" by auto
  have ne: "split 58 s \<noteq> []" by (rule split_nonempty)
  show False
  proof (cases "46 \<in> set (last (split 58 s))")
    case False
    with a have "v6_parts_to_int (split 58 s) = Inr v"
      by (auto simp: v6_ip_int_from_string_def Let_def split: if_splits)
    from v6_parts_to_int_hex[OF this p] cp percent_not_hex show False by auto
  next
    case True
    with a obtain w where w: "IPv4Address (last (split 58 s)) = Inr w"
      and r: "v6_parts_to_int (butlast (split 58 s) @
                 [hex_of (drop_bit 16 w AND 65535), hex_of (w AND 65535)]) = Inr v"
      by (auto simp: v6_ip_int_from_string_def Let_def split: if_splits sum.splits)
    from ne have "split 58 s = butlast (split 58 s) @ [last (split 58 s)]" by simp
    with p have "p \<in> set (butlast (split 58 s)) \<or> p = last (split 58 s)"
      by (metis Un_iff append_butlast_last_id empty_iff empty_set ne set_ConsD set_append)
    then show False
    proof
      assume "p \<in> set (butlast (split 58 s))"
      then have "p \<in> set (butlast (split 58 s) @
                 [hex_of (drop_bit 16 w AND 65535), hex_of (w AND 65535)])" by simp
      from v6_parts_to_int_hex[OF r this] cp percent_not_hex show False by auto
    next
      assume "p = last (split 58 s)"
      with w cp show False by (auto dest: IPv4Address_no_percent)
    qed
  qed
qed

lemma IPv6Address_scope: "IPv6Address s = Inr a \<Longrightarrow> scope_id a = None \<or> (\<exists>z. scope_id a = Some z \<and> z \<noteq> [])"
  by (auto simp: IPv6Address_def split_scope_id_def split: if_splits sum.splits prod.splits)

lemma exploded_no_scope:
  assumes "exploded a = Inr e" and "scope_id a = Some z" and "z \<noteq> []"
  shows False
proof -
  from assms obtain ip_str v where "v6_ip_int_from_string (ip_str @ 37 # z) = Inr v"
    by (auto simp: exploded_def str_of_address_def split: sum.splits)
  then have "37 \<notin> set (ip_str @ 37 # z)" by (rule v6_ip_int_from_string_no_percent)
  then show False by simp
qed

lemma canonical_address:
  assumes "ipv6_to_canonical x = Inr c"
  shows "\<exists>a. IPv6Address (strip x) = Inr a \<and> scope_id a = None \<and> ip a < 2 ^ 128 \<and>
             c = join 58 (hex_groups (ip a))"
proof -
  from assms obtain a e where a: "IPv6Address (strip x) = Inr a" and e: "exploded a = Inr e"
    by (auto simp: ipv6_to_canonical_def split: sum.splits)
  from a have "scope_id a = None \<or> (\<exists>z. scope_id a = Some z \<and> z \<noteq> [])" by (rule IPv6Address_scope)
  with e have n: "scope_id a = None" by (auto dest: exploded_no_scope)
  from a have b: "ip a < 2 ^ 128" by (rule IPv6Address_bound)
  from a n have "ipv6_to_canonical x = Inr (join 58 (hex_groups (ip a)))" by (rule canonical_of_address)
  with assms have "c = join 58 (hex_groups (ip a))" by simp
  with a n b show ?thesis by blast
qed

lemma zoned_address_rejected:
  assumes "IPv6Address (strip x) = Inr a" and "scope_id a \<noteq> None"
  shows "\<exists>e. ipv6_to_canonical x = Inl e"
proof (cases "ipv6_to_canonical x")
  case (Inl e)
  then show ?thesis by simp
next
  case (Inr c)
  then obtain a' where "IPv6Address (strip x) = Inr a'" and "scope_id a' = None"
    using canonical_address by blast
  with assms show ?thesis by simp
qed

text \<open>The partitioning loop on a list of lines that is cut in two.\<close>

lemma open_files_handles: "open_files env ps d = (Inr fhs, d') \<Longrightarrow> fhs = ps"
proof (induction ps arbitrary: d fhs)
  case Nil
  then show ?case by simp
next
  case (Cons p ps)
  then show ?case by (auto split: if_splits prod.splits sum.splits)
qed

lemma partition_loop_append:
  "partition_loop env fhs (xs @ ys) st d =
     (case partition_loop env fhs xs st d of
        (Inl e, d') \<Rightarrow> (Inl e, d')
      | (Inr st', d') \<Rightarrow> partition_loop env fhs ys st' d')"
proof (induction xs arbitrary: st d)
  case Nil
  then show ?case by simp
next
  case (Cons x xs)
  show ?case
  proof (cases "partition_line env fhs x st d")
    case (Pair r d1)
    then show ?thesis by (cases r) (simp_all add: Cons.IH)
  qed
qed

lemma partition_loop_prefix:
  assumes "partition_loop env fhs (pre @ line # rest) st d = (Inr st2, d2)"
  shows "\<exists>s e s' e'. partition_loop env fhs pre st d = (Inr s, e) \<and>
           partition_line env fhs line s e = (Inr s', e') \<and>
           partition_loop env fhs (pre @ [line]) st d = (Inr s', e') \<and>
           partition_loop env fhs rest s' e' = (Inr st2, d2)"
proof -
  from assms obtain s e where p: "partition_loop env fhs pre st d = (Inr s, e)"
    and r: "partition_loop env fhs (line # rest) s e = (Inr st2, d2)"
    by (auto simp: partition_loop_append split: prod.splits sum.splits)
  from r obtain s' e' where l: "partition_line env fhs line s e = (Inr s', e')"
    and r': "partition_loop env fhs rest s' e' = (Inr st2, d2)"
    by (auto split: prod.splits sum.splits)
  from p l have "partition_loop env fhs (pre @ [line]) st d = (Inr s', e')"
    by (simp add: partition_loop_append)
  with p l r' show ?thesis by blast
qed

lemma partition_line_parsed:
  assumes "partition_line env fhs line st d = (Inr st', d')" and "strip line \<noteq> []"
  shows "\<exists>c idx. ipv6_to_canonical (strip line) = Inr c \<and> partition_index env c = Inr idx \<and>
           idx < NUM_PARTITIONS"
proof -
  from assms obtain c where c: "ipv6_to_canonical (strip line) = Inr c"
    by (cases "ipv6_to_canonical (strip line)") (simp_all add: partition_line_invalid)
  from assms c obtain idx where idx: "partition_index env c = Inr idx"
    by (cases "partition_index env c") (simp_all add: partition_line_def Let_def)
  then have "idx < NUM_PARTITIONS" by (rule partition_index_bound)
  with c idx show ?thesis by blast
qed

text \<open>A successful run of phase 1, cut into its steps.\<close>

lemma partition_phase_steps:
  assumes "partition_phase env (Some body) d = (Inr (), d')"
  shows "\<exists>d0 st d1.
           open_files env partition_paths d = (Inr partition_paths, d0) \<and>
           partition_loop env partition_paths (readlines body)
             \<lparr>buffer = replicate NUM_PARTITIONS [], buffer_size = 0\<rparr> d0 = (Inr st, d1) \<and>
           final_flush env (enumerate_list partition_paths) (buffer st) d1 = (Inr (), d')"
proof -
  from assms obtain fhs d0 where o: "open_files env partition_paths d = (Inr fhs, d0)"
    by (auto simp: partition_phase_def split: prod.splits sum.splits)
  then have fhs: "fhs = partition_paths" by (rule open_files_handles)
  from assms o fhs obtain st d1 where
    "partition_loop env partition_paths (readlines body)
       \<lparr>buffer = replicate NUM_PARTITIONS [], buffer_size = 0\<rparr> d0 = (Inr st, d1)"
    and "final_flush env (enumerate_list partition_paths) (buffer st) d1 = (Inr (), d')"
    by (auto simp: partition_phase_def split: prod.splits sum.splits)
  with o fhs show ?thesis by blast
qed

text \<open>Lines that stay below the threshold are only buffered.\<close>

lemma partition_loop_buffering:
  assumes c: "ipv6_to_canonical (strip line) = Inr c" and ne: "strip line \<noteq> []"
    and idx: "partition_index env c = Inr idx"
  shows "idx < length (buffer st) \<Longrightarrow> buffer_size st + k * (length c + 1) < CHUNK_WRITE_SIZE \<Longrightarrow>
    partition_loop env fhs (replicate k line) st d =
      (Inr \<lparr>buffer = (buffer st)[idx := buffer st ! idx @ replicate k (c @ [10])],
            buffer_size = buffer_size st + k * (length c + 1)\<rparr>, d)"
proof (induction k arbitrary: st)
  case 0
  then show ?case by simp
next
  case (Suc k)
  let ?st1 = "\<lparr>buffer = (buffer st)[idx := buffer st ! idx @ [c @ [10]]],
               buffer_size = buffer_size st + (length c + 1)\<rparr>"
  from Suc.prems(2) have lt: "\<not> buffer_size st + (length c + 1) \<ge> CHUNK_WRITE_SIZE" by simp
  with c ne idx have s: "partition_line env fhs line st d = (Inr ?st1, d)"
    by (simp add: partition_line_def Let_def)
  from Suc.prems have 1: "idx < length (buffer ?st1)"
    and 2: "buffer_size ?st1 + k * (length c + 1) < CHUNK_WRITE_SIZE" by simp_all
  from Suc.IH[OF 1 2] have
    "partition_loop env fhs (replicate k line) ?st1 d =
      (Inr \<lparr>buffer = (buffer ?st1)[idx := buffer ?st1 ! idx @ replicate k (c @ [10])],
            buffer_size = buffer_size ?st1 + k * (length c + 1)\<rparr>, d)" .
  moreover from Suc.prems(1) have
    "(buffer ?st1)[idx := buffer ?st1 ! idx @ replicate k (c @ [10])] =
     (buffer st)[idx := buffer st ! idx @ replicate (Suc k) (c @ [10])]" by simp
  moreover have "buffer_size ?st1 + k * (length c + 1) = buffer_size st + Suc k * (length c + 1)"
    by simp
  ultimately have "partition_loop env fhs (replicate k line) ?st1 d =
      (Inr \<lparr>buffer = (buffer st)[idx := buffer st ! idx @ replicate (Suc k) (c @ [10])],
            buffer_size = buffer_size st + Suc k * (length c + 1)\<rparr>, d)" by (simp only:)
  with s show ?case by simp
qed

lemma example_address_facts:
  "ipv6_to_canonical example_address = Inr example_address"
  "length example_address = 39"
  "10 \<notin> set example_address \<and> 13 \<notin> set example_address"
  by (simp_all add: example_address_def parse_eval print_eval)

lemma example_long_lines:
  "readlines example_long_text = replicate 209717 (example_address @ [10])"
proof -
  have "example_long_text = spill_text (replicate 209717 example_address)"
    by (simp add: example_long_text_def spill_text_def)
  moreover have "\<forall>c \<in> set (replicate 209717 example_address). 10 \<notin> set c \<and> 13 \<notin> set c"
    using example_address_facts(3) by simp
  then have "readlines (spill_text (replicate 209717 example_address)) =
      map (\<lambda>c. c @ [10]) (replicate 209717 example_address)" by (rule readlines_spill_text)
  ultimately show ?thesis by simp
qed

lemma example_spill_dir_empty: "\<forall>i < NUM_PARTITIONS. example_spill_dir (partition_name i) = Some []"
  by (simp add: example_spill_dir_def partition_paths_def)

lemma example_long_run:
  "\<exists>d'. partition_phase example_env (Some example_long_text) example_spill_dir = (Inr (), d')"
proof -
  have "\<forall>l \<in> set (filter (\<lambda>l. l \<noteq> []) (map strip (readlines example_long_text))).
          \<exists>c. ipv6_to_canonical l = Inr c"
    using example_address_facts(1) strip_canonical(2)[OF example_address_facts(1)]
    by (simp add: example_long_lines)
  then obtain cs where "canon_lines (readlines example_long_text) = Inr cs"
    using canon_lines_valid by blast
  with partition_phase_ok[OF example_env_ok(1) example_spill_dir_empty, of example_long_text]
  show ?thesis by auto
qed

section \<open>Properties of the program\<close>

subsection \<open>The choice of the strategy\<close>

text \<open>
  Claim C10. With \<open>--basic\<close>, \<open>main\<close> runs the in-memory counter and writes its count,
  whatever \<open>--optimized\<close> says and whatever the size of the input file is: the result
  is the same for every value of the flag \<open>optimized\<close> and of \<open>os.path.getsize\<close>. Of the
  environment, only the success of writing the output file plays a part.
\<close>

theorem basic_flag_precedence:
  assumes "basic a"
  shows "main env a w =
     (if files w (input_file a) = None then (Inl SystemExit, w)
      else case count_unique_basic w (input_file a) of
        Inl e \<Rightarrow> (Inl e, w)
      | Inr n \<Rightarrow> write_output env w (output_file a) n) \<and>
     main (env\<lparr>path_getsize := sizes\<rparr>) (a\<lparr>optimized := opt\<rparr>) w = main env a w"
  using assms by (simp add: main_def write_output_def Let_def split: sum.splits)

theorem basic_flag_precedence_witness:
  "basic example_args \<and> optimized example_args \<and>
   main example_env example_args example_world =
     (if files example_world (input_file example_args) = None
      then (Inl SystemExit, example_world)
      else case count_unique_basic example_world (input_file example_args) of
        Inl e \<Rightarrow> (Inl e, example_world)
      | Inr n \<Rightarrow> write_output example_env example_world (output_file example_args) n) \<and>
   main (example_env\<lparr>path_getsize := (\<lambda>p. 10 ^ 9)\<rparr>) (example_args\<lparr>optimized := False\<rparr>) example_world =
     main example_env example_args example_world"
proof -
  have b: "basic example_args" by (simp add: example_args_def)
  have "optimized example_args" by (simp add: example_args_def)
  with b basic_flag_precedence [OF b, of example_env example_world "\<lambda>p. 10 ^ 9" False]
  show ?thesis by blast
qed

subsection \<open>The canonical form\<close>




lemma zoned_example:
  "IPv6Address (strip (py ''fe80::1%eth0'')) =
     Inr \<lparr>ip = 338288524927261089654018896841347694593, scope_id = Some (py ''eth0'')\<rparr>"
  "ipv6_to_canonical (py ''fe80::1%eth0'') = Inl AddressValueError"
  by (simp_all add: parse_eval print_eval)

subsection \<open>The two engines agree\<close>

text \<open>
  Claim C1. When no operation on a spill file fails, the number of workers is positive
  (given, or derived from \<open>os.cpu_count()\<close>) and \<open>temp_dir\<close> is a directory, the
  partitioned engine returns what the in-memory engine returns on the same input file:
  the same count, or the same error for a missing file or an invalid line.
\<close>

theorem engine_equivalence:
  assumes "all_ok env" and "fair_schedule env"
    and "resolve_workers env num_workers = Inr k" and "0 < k"
    and "dirs w temp_dir \<noteq> None"
  shows "fst (count_unique_optimized env w input_path temp_dir num_workers) =
           count_unique_basic w input_path"
  using assms by (rule count_unique_optimized_eq_basic)

lemma example_resolve: "resolve_workers example_env 0 = Inr 3"
  by (simp add: resolve_workers_def example_env_def)

lemma example_tmp_dir: "dirs example_run_world example_tmp \<noteq> None"
  by (simp add: example_run_world_def)

lemma example_canonical:
  "ipv6_to_canonical (py ''2001:db0::30'') = Inr (py ''2001:0db0:0000:0000:0000:0000:0000:0030'')"
  by (simp add: parse_eval print_eval)

lemma example_stripped_lines: "stripped_lines (py ''2001:db0::30'') = [py ''2001:db0::30'']"
  by (simp add: py_def stripped_lines_def readlines_def strip_def isspace_def)

lemma example_files: "files example_run_world (py ''in.txt'') = Some (py ''2001:db0::30'')"
  by (simp add: example_run_world_def)

lemma example_basic: "count_unique_basic example_run_world (py ''in.txt'') = Inr 1"
proof -
  have "readlines (py ''2001:db0::30'') = [py ''2001:db0::30'']"
    by (simp add: py_def readlines_def)
  moreover have "strip (py ''2001:db0::30'') = py ''2001:db0::30''"
    by (simp add: py_def strip_def isspace_def)
  ultimately have "canon_lines (readlines (py ''2001:db0::30'')) =
      Inr [py ''2001:0db0:0000:0000:0000:0000:0000:0030'']"
    using example_canonical by (simp add: py_def)
  then show ?thesis
    by (simp add: count_unique_basic_eq example_files distinct_count_def)
qed

theorem engine_equivalence_witness:
  "fst (count_unique_optimized example_env example_run_world (py ''in.txt'') example_tmp 0) =
     count_unique_basic example_run_world (py ''in.txt'') \<and>
   count_unique_basic example_run_world (py ''in.txt'') = Inr 1"
proof -
  have "(0::int) < 3" by simp
  from engine_equivalence [OF example_env_ok example_resolve this example_tmp_dir]
  show ?thesis using example_basic by simp
qed

text \<open>
  Claim C8. The result of the partitioned engine depends neither on the number of
  workers, when it is positive, nor on the order in which the futures complete: two
  runs on the same file system with worker counts \<open>k1\<close> and \<open>k2\<close> and completion orders
  \<open>as_completed env\<close> and \<open>sched\<close> return the same result.
\<close>

theorem worker_count_independence:
  assumes "all_ok env" and "fair_schedule env" and "\<forall>ps. mset (sched ps) = mset ps"
    and "0 < k1" and "0 < k2" and "dirs w temp_dir \<noteq> None"
  shows "fst (count_unique_optimized env w input_path temp_dir k1) =
         fst (count_unique_optimized (env\<lparr>as_completed := sched\<rparr>) w input_path temp_dir k2)"
proof -
  from assms(4) have r1: "resolve_workers env k1 = Inr k1" by (simp add: resolve_workers_def)
  from assms(5) have r2: "resolve_workers (env\<lparr>as_completed := sched\<rparr>) k2 = Inr k2"
    by (simp add: resolve_workers_def)
  from assms(1) have ok2: "all_ok (env\<lparr>as_completed := sched\<rparr>)" by (simp add: all_ok_def)
  from assms(3) have f2: "fair_schedule (env\<lparr>as_completed := sched\<rparr>)"
    by (simp add: fair_schedule_def)
  have "fst (count_unique_optimized env w input_path temp_dir k1) = count_unique_basic w input_path"
    using assms(1,2) r1 assms(4,6) by (rule count_unique_optimized_eq_basic)
  moreover have "fst (count_unique_optimized (env\<lparr>as_completed := sched\<rparr>) w input_path temp_dir k2) =
      count_unique_basic w input_path"
    using ok2 f2 r2 assms(5,6) by (rule count_unique_optimized_eq_basic)
  ultimately show ?thesis by simp
qed

theorem worker_count_independence_witness:
  "fst (count_unique_optimized example_env example_run_world (py ''in.txt'') example_tmp 1) =
   fst (count_unique_optimized (example_env\<lparr>as_completed := id\<rparr>) example_run_world
          (py ''in.txt'') example_tmp 4)"
proof -
  have s: "\<forall>ps :: pystr list. mset (id ps) = mset ps" by simp
  have k: "(0::int) < 1" "(0::int) < 4" by simp_all
  from worker_count_independence [OF example_env_ok s k example_tmp_dir] show ?thesis .
qed

text \<open>
  Claim C9. For an input file all of whose lines are blank after \<open>strip\<close>, the empty
  file included, the in-memory engine returns 0, and so does the partitioned engine
  whenever its spill files can be written and its number of workers is positive.
\<close>

theorem zero_boundaries:
  assumes "files w input_path = Some body"
    and "\<forall>line \<in> set (readlines body). strip line = []"
  shows "count_unique_basic w input_path = Inr 0 \<and>
    (all_ok env \<and> fair_schedule env \<and> resolve_workers env num_workers = Inr k \<and> 0 < k \<and>
       dirs w temp_dir \<noteq> None \<longrightarrow>
     fst (count_unique_optimized env w input_path temp_dir num_workers) = Inr 0)"
proof -
  have "\<And>lines. \<forall>line \<in> set lines. strip line = [] \<Longrightarrow> canon_lines lines = Inr []"
  proof -
    fix lines :: "pystr list"
    show "\<forall>line \<in> set lines. strip line = [] \<Longrightarrow> canon_lines lines = Inr []"
      by (induction lines) auto
  qed
  with assms(2) have "canon_lines (readlines body) = Inr []" by simp
  with assms(1) have b: "count_unique_basic w input_path = Inr 0"
    by (simp add: count_unique_basic_eq distinct_count_def)
  then show ?thesis using count_unique_optimized_eq_basic[of env num_workers k w temp_dir input_path]
    by simp
qed

lemma blank_lines: "\<forall>line \<in> set (readlines (py ''  '' @ [10, 13, 10, 9])). strip line = []"
  by (simp add: py_def readlines_def strip_def isspace_def)

theorem zero_boundaries_witness:
  "count_unique_basic blank_world (py ''in.txt'') = Inr 0 \<and>
   fst (count_unique_optimized example_env blank_world (py ''in.txt'') example_tmp 0) = Inr 0 \<and>
   count_unique_basic empty_world (py ''in.txt'') = Inr 0 \<and>
   fst (count_unique_optimized example_env empty_world (py ''in.txt'') example_tmp 0) = Inr 0"
proof -
  have f1: "files blank_world (py ''in.txt'') = Some (py ''  '' @ [10, 13, 10, 9])"
    by (simp add: blank_world_def)
  have f2: "files empty_world (py ''in.txt'') = Some []" by (simp add: empty_world_def)
  have e: "\<forall>line \<in> set (readlines []). strip line = []" by (simp add: readlines_def)
  have d: "dirs blank_world example_tmp \<noteq> None" "dirs empty_world example_tmp \<noteq> None"
    by (simp_all add: blank_world_def empty_world_def)
  from zero_boundaries [OF f1 blank_lines, of example_env 0 3 example_tmp]
    zero_boundaries [OF f2 e, of example_env 0 3 example_tmp]
  show ?thesis using example_env_ok example_resolve d by simp
qed

subsection \<open>Invalid lines\<close>

text \<open>
  Claim C4. If some non-blank line of the input file is rejected by the canonicalizer,
  then both engines raise an error, in every environment, and \<open>main\<close> raises an error and
  leaves the file system as it was: the output file is not written.
\<close>

theorem invalid_address_fatal:
  assumes "files w (input_file a) = Some body" and "line \<in> set (readlines body)"
    and "strip line \<noteq> []" and "ipv6_to_canonical (strip line) = Inl e0"
  shows "(\<exists>e. count_unique_basic w (input_file a) = Inl e) \<and>
         (\<exists>e. fst (count_unique_optimized env w (input_file a) temp_dir num_workers) = Inl e) \<and>
         (\<exists>e. main env a w = (Inl e, w))"
proof -
  from canon_lines_invalid[OF assms(2,3,4)] obtain e where "canon_lines (readlines body) = Inl e"
    by blast
  with assms(1) have b: "count_unique_basic w (input_file a) = Inl e"
    by (simp add: count_unique_basic_eq distinct_count_def)
  have o: "\<exists>e. fst (count_unique_optimized env w (input_file a) temp_dir num_workers) = Inl e"
    using assms by (rule count_unique_optimized_invalid)
  from with_temporary_directory_invalid[OF assms, of env] obtain e' where
    "fst (with_temporary_directory env a w) = Inl e'" by blast
  then have t: "with_temporary_directory env a w = (Inl e', w)"
    using with_temporary_directory_restores[of env a w] by (metis prod.collapse)
  have "\<exists>e. main env a w = (Inl e, w)"
    using assms(1) b t by (simp add: main_def Let_def)
  with b o show ?thesis by blast
qed

theorem invalid_address_fatal_witness:
  "(\<exists>e. count_unique_basic bad_world (py ''in.txt'') = Inl e) \<and>
   (\<exists>e. fst (count_unique_optimized example_env bad_world (py ''in.txt'') example_tmp 2) = Inl e) \<and>
   (\<exists>e. main example_env example_args bad_world = (Inl e, bad_world)) \<and>
   (\<exists>e. main example_env (example_args\<lparr>basic := False\<rparr>) bad_world = (Inl e, bad_world))"
proof -
  have f: "files bad_world (input_file example_args) = Some (py ''::1'' @ [10] @ py ''zz'')"
    "files bad_world (input_file (example_args\<lparr>basic := False\<rparr>)) = Some (py ''::1'' @ [10] @ py ''zz'')"
    by (simp_all add: bad_world_def example_args_def)
  have l: "py ''zz'' \<in> set (readlines (py ''::1'' @ [10] @ py ''zz''))"
    by (simp add: py_def readlines_def)
  have s: "strip (py ''zz'') \<noteq> []" by (simp add: py_def strip_def isspace_def)
  have c: "ipv6_to_canonical (strip (py ''zz'')) = Inl AddressValueError"
    by (simp add: parse_eval print_eval)
  have i: "input_file example_args = py ''in.txt''" by (simp add: example_args_def)
  from invalid_address_fatal [OF f(1) l s c, of example_env example_tmp 2]
    invalid_address_fatal [OF f(2) l s c, of example_env example_tmp 2]
  show ?thesis using i by simp
qed

subsection \<open>The temporary directory\<close>

text \<open>
  Claim C7. The block \<open>with tempfile.TemporaryDirectory(...)\<close> of \<open>main\<close> leaves the file
  system as it found it, whatever the partitioned engine returns or raises: the
  directory it created, with every spill file in it, is gone when the block is left,
  and no directory remains after \<open>main\<close> that was not there before.
\<close>

theorem guaranteed_cleanup:
  "snd (with_temporary_directory env a w) = w \<and>
   dirs (snd (main env a w)) = dirs w \<and>
   (\<forall>tmpdir. mkdtemp env w = Inr tmpdir \<longrightarrow>
      dirs (snd (with_temporary_directory env a w)) tmpdir = None \<and>
      dirs (snd (main env a w)) tmpdir = None)"
proof -
  have r: "snd (with_temporary_directory env a w) = w" by (rule with_temporary_directory_restores)
  then have t: "with_temporary_directory env a w = (fst (with_temporary_directory env a w), w)"
    by (metis prod.collapse)
  have m: "dirs (snd (main env a w)) = dirs w"
    by (subst main_def, subst t) (simp add: Let_def write_output_def split: sum.splits)
  from r m show ?thesis using mkdtemp_fresh[of env w] by simp
qed

theorem guaranteed_cleanup_witness:
  "mkdtemp example_env example_world = Inr example_tmp \<and>
   dirs (snd (with_temporary_directory example_env example_args example_world)) example_tmp = None \<and>
   dirs (snd (main example_env example_args example_world)) example_tmp = None"
proof -
  have "mkdtemp example_env example_world = Inr example_tmp"
    by (simp add: mkdtemp_def example_env_def example_world_def example_tmp_def py_def)
  with guaranteed_cleanup [of example_env example_args example_world] show ?thesis by blast
qed

subsection \<open>The spill files\<close>

text \<open>
  Claim C3. When every non-blank line of the input is valid and no operation on a spill
  file fails, then after the run the spill file of each partition \<open>i\<close> holds exactly the
  canonical forms of the input lines whose index is \<open>i\<close>, one per line, in the order and
  with the multiplicity of the input; every canonical form has exactly one index below
  4096; and distinct partitions have distinct files.
\<close>

theorem partitioning_complete:
  assumes "all_ok env" and "resolve_workers env num_workers = Inr k"
    and "files w input_path = Some body" and "dirs w temp_dir = Some d"
    and "\<forall>l \<in> set (stripped_lines body). \<exists>c. ipv6_to_canonical l = Inr c"
  shows "\<exists>d'. dirs (snd (count_unique_optimized env w input_path temp_dir num_workers)) temp_dir = Some d' \<and>
           (\<forall>i < NUM_PARTITIONS. d' (partition_name i) =
              Some (spill_text (filter (\<lambda>c. partition_index env c = Inr i) (canonical_lines body)))) \<and>
           (\<forall>c \<in> set (canonical_lines body). \<exists>!i. i < NUM_PARTITIONS \<and> partition_index env c = Inr i) \<and>
           (\<forall>i j. partition_name i = partition_name j \<longrightarrow> i = j)"
proof -
  from assms(5) have cs: "canon_lines (readlines body) = Inr (canonical_lines body)"
    unfolding canonical_lines_def stripped_lines_def by (rule canon_lines_valid)
  let ?d' = "snd (optimized_in_dir env (Some body) d num_workers)"
  have 1: "dirs (snd (count_unique_optimized env w input_path temp_dir num_workers)) temp_dir = Some ?d'"
    using assms(3,4) by (simp add: count_unique_optimized_def split: prod.splits)
  have 2: "\<forall>i < NUM_PARTITIONS. ?d' (partition_name i) =
              Some (spill_text (filter (\<lambda>c. partition_index env c = Inr i) (canonical_lines body)))"
    using assms(1,2) cs by (rule optimized_in_dir_spill)
  have 3: "\<forall>c \<in> set (canonical_lines body). \<exists>!i. i < NUM_PARTITIONS \<and> partition_index env c = Inr i"
  proof
    fix c assume "c \<in> set (canonical_lines body)"
    with canon_lines_forms[OF cs] have "canonical_form c" by simp
    then obtain i where i: "partition_index env c = Inr i" by (simp add: partition_index_canonical)
    then have "i < NUM_PARTITIONS" by (rule partition_index_bound)
    with i show "\<exists>!i. i < NUM_PARTITIONS \<and> partition_index env c = Inr i" by auto
  qed
  have 4: "\<forall>i j. partition_name i = partition_name j \<longrightarrow> i = j"
    using partition_name_inj by blast
  from 1 2 3 4 show ?thesis by blast
qed

theorem partitioning_complete_witness:
  "\<exists>d'. dirs (snd (count_unique_optimized example_env example_run_world (py ''in.txt'') example_tmp 0))
            example_tmp = Some d' \<and>
         (\<forall>i < NUM_PARTITIONS. d' (partition_name i) =
              Some (spill_text (filter (\<lambda>c. partition_index example_env c = Inr i)
                     [py ''2001:0db0:0000:0000:0000:0000:0000:0030''])))"
proof -
  have v: "\<forall>l \<in> set (stripped_lines (py ''2001:db0::30'')). \<exists>c. ipv6_to_canonical l = Inr c"
    by (simp add: example_stripped_lines example_canonical)
  have d: "dirs example_run_world example_tmp = Some Map.empty" by (simp add: example_run_world_def)
  have c: "canonical_lines (py ''2001:db0::30'') = [py ''2001:0db0:0000:0000:0000:0000:0000:0030'']"
    by (simp add: canonical_lines_def example_stripped_lines example_canonical)
  from partitioning_complete [OF example_env_ok(1) example_resolve example_files d v]
  show ?thesis unfolding c by blast
qed

subsection \<open>The partition of a canonical string\<close>

text \<open>
  Claim C5. For every string \<open>c\<close> that the canonicalizer returns, the bytes that are
  hashed are the code points of \<open>c\<close>, and the partition index is the number made of the
  first 32 bits of the MD5 digest of these bytes, modulo 4096: a function of \<open>c\<close> and of
  the hash function alone, which involves neither the state of the run nor the number
  of workers, and which is below 4096.
\<close>

theorem partition_assignment:
  assumes "ipv6_to_canonical x = Inr c"
  shows "encode c = Inr c \<and>
         partition_index env c = Inr (unat (md5 env c) div 2 ^ 96 mod NUM_PARTITIONS) \<and>
         unat (md5 env c) div 2 ^ 96 mod NUM_PARTITIONS < 4096"
proof -
  from assms have cf: "canonical_form c" by (auto simp: canonical_form_def)
  then have "encode c = Inr c" by (simp add: encode_ascii canonical_form_ascii)
  moreover from cf have "partition_index env c =
      Inr (unat (md5 env c) div 2 ^ 96 mod NUM_PARTITIONS)"
    by (simp add: partition_index_canonical hexdigest_top)
  ultimately show ?thesis by (simp add: NUM_PARTITIONS_def)
qed

theorem partition_assignment_witness:
  "partition_index example_env (py ''2001:0db0:0000:0000:0000:0000:0000:0030'') =
     Inr (unat (md5 example_env (py ''2001:0db0:0000:0000:0000:0000:0000:0030'')) div 2 ^ 96
          mod NUM_PARTITIONS)"
  using partition_assignment [OF example_canonical, of example_env] by simp

subsection \<open>The write buffers\<close>

text \<open>
  Claim C6. In every run of phase 1 that returns, on every input text and every
  directory: (1) before each line of the input is handled, the counter \<open>buffer_size\<close> is
  the number of bytes held in the 4096 buffers, and it is below the threshold of 8 MiB;
  (2) a blank line changes nothing; another line is appended to the buffer of its
  partition, and if the bytes held then reach the threshold, the step leaves every
  buffer empty, resets the counter and has appended to each spill file what its buffer
  held, while below the threshold it touches no file; (3) after the last line the
  invariant of (1) holds again, and the phase ends with each spill file extended by
  what its buffer still held. Here \<open>d0\<close> is the directory once the spill files are
  open, \<open>s\<close> and \<open>e\<close> are the buffers and the directory before a line, \<open>s'\<close> and \<open>e'\<close>
  after it, and \<open>st\<close> and \<open>d1\<close> after the last line.
\<close>

theorem buffered_flush_invariant:
  assumes "partition_phase env (Some body) d = (Inr (), d')"
  shows "\<exists>d0 st d1.
     open_files env partition_paths d = (Inr partition_paths, d0) \<and>
     (\<forall>pre line rest. readlines body = pre @ line # rest \<longrightarrow>
        (\<exists>s e s' e'.
           partition_loop env partition_paths pre
             \<lparr>buffer = replicate NUM_PARTITIONS [], buffer_size = 0\<rparr> d0 = (Inr s, e) \<and>
           partition_line env partition_paths line s e = (Inr s', e') \<and>
           partition_loop env partition_paths (pre @ [line])
             \<lparr>buffer = replicate NUM_PARTITIONS [], buffer_size = 0\<rparr> d0 = (Inr s', e') \<and>
           length (buffer s) = NUM_PARTITIONS \<and> buffer_size s = buffered_bytes (buffer s) \<and>
           buffered_bytes (buffer s) < CHUNK_WRITE_SIZE \<and>
           (if strip line = [] then s' = s \<and> e' = e
            else \<exists>c idx. ipv6_to_canonical (strip line) = Inr c \<and>
                   partition_index env c = Inr idx \<and> idx < NUM_PARTITIONS \<and>
                   (let buf = (buffer s)[idx := buffer s ! idx @ [c @ [10]]] in
                    if CHUNK_WRITE_SIZE \<le> buffered_bytes buf
                    then buffer_size s' = 0 \<and> length (buffer s') = NUM_PARTITIONS \<and>
                         (\<forall>i < NUM_PARTITIONS. buffer s' ! i = [] \<and>
                            file_text e' (partition_name i) =
                              file_text e (partition_name i) @ concat (buf ! i))
                    else buffer s' = buf \<and> e' = e \<and> buffer_size s' = buffered_bytes buf)))) \<and>
     partition_loop env partition_paths (readlines body)
       \<lparr>buffer = replicate NUM_PARTITIONS [], buffer_size = 0\<rparr> d0 = (Inr st, d1) \<and>
     length (buffer st) = NUM_PARTITIONS \<and> buffer_size st = buffered_bytes (buffer st) \<and>
     buffered_bytes (buffer st) < CHUNK_WRITE_SIZE \<and>
     final_flush env (enumerate_list partition_paths) (buffer st) d1 = (Inr (), d') \<and>
     (\<forall>i < NUM_PARTITIONS.
        file_text d' (partition_name i) = file_text d1 (partition_name i) @ concat (buffer st ! i))"
proof -
  let ?init = "\<lparr>buffer = replicate NUM_PARTITIONS [], buffer_size = 0\<rparr>"
  from partition_phase_steps[OF assms] obtain d0 st d1 where
    o: "open_files env partition_paths d = (Inr partition_paths, d0)"
    and l: "partition_loop env partition_paths (readlines body) ?init d0 = (Inr st, d1)"
    and f: "final_flush env (enumerate_list partition_paths) (buffer st) d1 = (Inr (), d')"
    by blast
  have steps: "\<forall>pre line rest. readlines body = pre @ line # rest \<longrightarrow>
        (\<exists>s e s' e'.
           partition_loop env partition_paths pre ?init d0 = (Inr s, e) \<and>
           partition_line env partition_paths line s e = (Inr s', e') \<and>
           partition_loop env partition_paths (pre @ [line]) ?init d0 = (Inr s', e') \<and>
           length (buffer s) = NUM_PARTITIONS \<and> buffer_size s = buffered_bytes (buffer s) \<and>
           buffered_bytes (buffer s) < CHUNK_WRITE_SIZE \<and>
           (if strip line = [] then s' = s \<and> e' = e
            else \<exists>c idx. ipv6_to_canonical (strip line) = Inr c \<and>
                   partition_index env c = Inr idx \<and> idx < NUM_PARTITIONS \<and>
                   (let buf = (buffer s)[idx := buffer s ! idx @ [c @ [10]]] in
                    if CHUNK_WRITE_SIZE \<le> buffered_bytes buf
                    then buffer_size s' = 0 \<and> length (buffer s') = NUM_PARTITIONS \<and>
                         (\<forall>i < NUM_PARTITIONS. buffer s' ! i = [] \<and>
                            file_text e' (partition_name i) =
                              file_text e (partition_name i) @ concat (buf ! i))
                    else buffer s' = buf \<and> e' = e \<and> buffer_size s' = buffered_bytes buf)))"
  proof (intro allI impI)
    fix pre line rest
    assume "readlines body = pre @ line # rest"
    with l have "partition_loop env partition_paths (pre @ line # rest) ?init d0 = (Inr st, d1)"
      by simp
    from partition_loop_prefix[OF this] obtain s e s' e' where
      p: "partition_loop env partition_paths pre ?init d0 = (Inr s, e)"
      and s: "partition_line env partition_paths line s e = (Inr s', e')"
      and q: "partition_loop env partition_paths (pre @ [line]) ?init d0 = (Inr s', e')"
      by blast
    from buffers_inv_initial p have "buffers_inv s" by (rule partition_loop_inv)
    then have len: "length (buffer s) = NUM_PARTITIONS"
      and size: "buffer_size s = buffered_bytes (buffer s)"
      and lt: "buffered_bytes (buffer s) < CHUNK_WRITE_SIZE" by (simp_all add: buffers_inv_def)
    have c: "if strip line = [] then s' = s \<and> e' = e
            else \<exists>c idx. ipv6_to_canonical (strip line) = Inr c \<and>
                   partition_index env c = Inr idx \<and> idx < NUM_PARTITIONS \<and>
                   (let buf = (buffer s)[idx := buffer s ! idx @ [c @ [10]]] in
                    if CHUNK_WRITE_SIZE \<le> buffered_bytes buf
                    then buffer_size s' = 0 \<and> length (buffer s') = NUM_PARTITIONS \<and>
                         (\<forall>i < NUM_PARTITIONS. buffer s' ! i = [] \<and>
                            file_text e' (partition_name i) =
                              file_text e (partition_name i) @ concat (buf ! i))
                    else buffer s' = buf \<and> e' = e \<and> buffer_size s' = buffered_bytes buf)"
    proof (cases "strip line = []")
      case True
      with s show ?thesis by (simp add: partition_line_blank)
    next
      case False
      from partition_line_parsed[OF s False] obtain c idx where
        c: "ipv6_to_canonical (strip line) = Inr c" and idx: "partition_index env c = Inr idx"
        and b: "idx < NUM_PARTITIONS" by blast
      note partition_line_step[OF len size False c idx s]
      with False c idx b show ?thesis by (simp only: if_False) blast
    qed
    from p s q len size lt c
    show "\<exists>s e s' e'.
           partition_loop env partition_paths pre ?init d0 = (Inr s, e) \<and>
           partition_line env partition_paths line s e = (Inr s', e') \<and>
           partition_loop env partition_paths (pre @ [line]) ?init d0 = (Inr s', e') \<and>
           length (buffer s) = NUM_PARTITIONS \<and> buffer_size s = buffered_bytes (buffer s) \<and>
           buffered_bytes (buffer s) < CHUNK_WRITE_SIZE \<and>
           (if strip line = [] then s' = s \<and> e' = e
            else \<exists>c idx. ipv6_to_canonical (strip line) = Inr c \<and>
                   partition_index env c = Inr idx \<and> idx < NUM_PARTITIONS \<and>
                   (let buf = (buffer s)[idx := buffer s ! idx @ [c @ [10]]] in
                    if CHUNK_WRITE_SIZE \<le> buffered_bytes buf
                    then buffer_size s' = 0 \<and> length (buffer s') = NUM_PARTITIONS \<and>
                         (\<forall>i < NUM_PARTITIONS. buffer s' ! i = [] \<and>
                            file_text e' (partition_name i) =
                              file_text e (partition_name i) @ concat (buf ! i))
                    else buffer s' = buf \<and> e' = e \<and> buffer_size s' = buffered_bytes buf))"
      by (intro exI conjI) assumption+
  qed
  from buffers_inv_initial l have "buffers_inv st" by (rule partition_loop_inv)
  then have len: "length (buffer st) = NUM_PARTITIONS"
    and size: "buffer_size st = buffered_bytes (buffer st)"
    and lt: "buffered_bytes (buffer st) < CHUNK_WRITE_SIZE" by (simp_all add: buffers_inv_def)
  from f have "final_flush env (map (\<lambda>i. (i, partition_name i)) [0 ..< NUM_PARTITIONS])
      (buffer st) d1 = (Inr (), d')" by (simp add: enumerate_partition_paths)
  from final_flush_props[OF this] have w: "\<forall>i < NUM_PARTITIONS.
      file_text d' (partition_name i) = file_text d1 (partition_name i) @ concat (buffer st ! i)"
    by simp
  from o steps l len size lt f w show ?thesis by (intro exI conjI) assumption+
qed

theorem buffered_flush_invariant_witness:
  "\<exists>d' s s' e' idx.
     partition_phase example_env (Some example_long_text) example_spill_dir = (Inr (), d') \<and>
     readlines example_long_text =
       replicate 209715 (example_address @ [10]) @ [example_address @ [10], example_address @ [10]] \<and>
     partition_loop example_env partition_paths (replicate 209715 (example_address @ [10]))
       \<lparr>buffer = replicate NUM_PARTITIONS [], buffer_size = 0\<rparr> example_spill_dir =
       (Inr s, example_spill_dir) \<and>
     buffer_size s = 8388600 \<and> buffered_bytes (buffer s) = 8388600 \<and>
     partition_index example_env example_address = Inr idx \<and>
     partition_line example_env partition_paths (example_address @ [10]) s example_spill_dir =
       (Inr s', e') \<and>
     buffer_size s' = 0 \<and> (\<forall>i < NUM_PARTITIONS. buffer s' ! i = []) \<and>
     file_text e' (partition_name idx) = concat (replicate 209716 (example_address @ [10])) \<and>
     file_text d' (partition_name idx) = example_long_text"
proof -
  let ?c = "example_address"
  let ?l = "example_address @ [10]"
  let ?init = "\<lparr>buffer = replicate NUM_PARTITIONS ([] :: pystr list), buffer_size = 0\<rparr>"
  note can = example_address_facts(1)
  from strip_canonical[OF can] have sl: "strip ?l = ?c" and ne: "?c \<noteq> []" by simp_all
  from sl can have canl: "ipv6_to_canonical (strip ?l) = Inr ?c" by simp
  from sl ne have nel: "strip ?l \<noteq> []" by simp
  from can have cf: "canonical_form ?c" by (auto simp: canonical_form_def)
  then obtain idx where idx: "partition_index example_env ?c = Inr idx"
    by (simp add: partition_index_canonical)
  then have ib: "idx < NUM_PARTITIONS" by (rule partition_index_bound)
  have size_l: "getsize ?l = 40"
    using getsize_canonical_line[OF cf] example_address_facts(2) by simp
  have r2: "replicate 209717 ?l = replicate 209715 ?l @ [?l, ?l]"
  proof -
    have "replicate (209715 + 2) ?l = replicate 209715 ?l @ replicate 2 ?l" by (rule replicate_add)
    moreover have "replicate 2 ?l = [?l, ?l]" by (simp add: numeral_2_eq_2)
    moreover have "(209715::nat) + 2 = 209717" by simp
    ultimately show ?thesis by (simp only:)
  qed
  have r1: "replicate 209716 ?l = replicate 209715 ?l @ [?l]"
  proof -
    have "replicate (209715 + 1) ?l = replicate 209715 ?l @ replicate 1 ?l" by (rule replicate_add)
    moreover have "replicate 1 ?l = [?l]" by simp
    moreover have "(209715::nat) + 1 = 209716" by simp
    ultimately show ?thesis by (simp only:)
  qed
  have lines: "readlines example_long_text = replicate 209715 ?l @ ?l # [?l]"
    using example_long_lines r2 by simp
  from example_long_run obtain d' where
    run: "partition_phase example_env (Some example_long_text) example_spill_dir = (Inr (), d')"
    by blast
  have "\<forall>p \<in> set partition_paths. example_spill_dir p \<noteq> None"
    by (simp add: example_spill_dir_def)
  with example_env_ok(1) have op: "open_files example_env partition_paths example_spill_dir =
      (Inr partition_paths, example_spill_dir)" by (rule open_files_ok)
  from buffered_flush_invariant[OF run] obtain d0 st d1 where
    o: "open_files example_env partition_paths example_spill_dir = (Inr partition_paths, d0)"
    and steps: "\<forall>pre line rest. readlines example_long_text = pre @ line # rest \<longrightarrow>
        (\<exists>s e s' e'.
           partition_loop example_env partition_paths pre ?init d0 = (Inr s, e) \<and>
           partition_line example_env partition_paths line s e = (Inr s', e') \<and>
           partition_loop example_env partition_paths (pre @ [line]) ?init d0 = (Inr s', e') \<and>
           length (buffer s) = NUM_PARTITIONS \<and> buffer_size s = buffered_bytes (buffer s) \<and>
           buffered_bytes (buffer s) < CHUNK_WRITE_SIZE \<and>
           (if strip line = [] then s' = s \<and> e' = e
            else \<exists>c idx. ipv6_to_canonical (strip line) = Inr c \<and>
                   partition_index example_env c = Inr idx \<and> idx < NUM_PARTITIONS \<and>
                   (let buf = (buffer s)[idx := buffer s ! idx @ [c @ [10]]] in
                    if CHUNK_WRITE_SIZE \<le> buffered_bytes buf
                    then buffer_size s' = 0 \<and> length (buffer s') = NUM_PARTITIONS \<and>
                         (\<forall>i < NUM_PARTITIONS. buffer s' ! i = [] \<and>
                            file_text e' (partition_name i) =
                              file_text e (partition_name i) @ concat (buf ! i))
                    else buffer s' = buf \<and> e' = e \<and> buffer_size s' = buffered_bytes buf)))"
    and l: "partition_loop example_env partition_paths (readlines example_long_text) ?init d0 =
        (Inr st, d1)"
    and w: "\<forall>i < NUM_PARTITIONS.
        file_text d' (partition_name i) = file_text d1 (partition_name i) @ concat (buffer st ! i)"
    by blast
  from o op have d0: "d0 = example_spill_dir" by simp
  from steps lines obtain s e s' e' where
    p: "partition_loop example_env partition_paths (replicate 209715 ?l) ?init d0 = (Inr s, e)"
    and s: "partition_line example_env partition_paths ?l s e = (Inr s', e')"
    and q: "partition_loop example_env partition_paths (replicate 209715 ?l @ [?l]) ?init d0 =
        (Inr s', e')"
    and len: "length (buffer s) = NUM_PARTITIONS"
    and size: "buffer_size s = buffered_bytes (buffer s)"
    and step: "if strip ?l = [] then s' = s \<and> e' = e
            else \<exists>c idx. ipv6_to_canonical (strip ?l) = Inr c \<and>
                   partition_index example_env c = Inr idx \<and> idx < NUM_PARTITIONS \<and>
                   (let buf = (buffer s)[idx := buffer s ! idx @ [c @ [10]]] in
                    if CHUNK_WRITE_SIZE \<le> buffered_bytes buf
                    then buffer_size s' = 0 \<and> length (buffer s') = NUM_PARTITIONS \<and>
                         (\<forall>i < NUM_PARTITIONS. buffer s' ! i = [] \<and>
                            file_text e' (partition_name i) =
                              file_text e (partition_name i) @ concat (buf ! i))
                    else buffer s' = buf \<and> e' = e \<and> buffer_size s' = buffered_bytes buf)"
    by blast
  have i0: "idx < length (buffer ?init)" using ib by simp
  have b0: "buffer_size ?init + 209715 * (length ?c + 1) < CHUNK_WRITE_SIZE"
    by (simp add: example_address_facts(2) CHUNK_WRITE_SIZE_def)
  from partition_loop_buffering[OF canl nel idx i0 b0, of partition_paths example_spill_dir]
  have pb: "partition_loop example_env partition_paths (replicate 209715 ?l) ?init example_spill_dir =
      (Inr \<lparr>buffer = (buffer ?init)[idx := buffer ?init ! idx @ replicate 209715 ?l],
            buffer_size = buffer_size ?init + 209715 * (length ?c + 1)\<rparr>, example_spill_dir)" .
  with p d0 have s_eq: "s = \<lparr>buffer = (buffer ?init)[idx := buffer ?init ! idx @ replicate 209715 ?l],
            buffer_size = buffer_size ?init + 209715 * (length ?c + 1)\<rparr>"
    and e_eq: "e = example_spill_dir" by simp_all
  from s_eq have bs: "buffer_size s = 8388600" by (simp add: example_address_facts(2))
  with size have bb: "buffered_bytes (buffer s) = 8388600" by simp
  from s_eq ib have s_idx: "buffer s ! idx = replicate 209715 ?l" by simp
  let ?buf = "(buffer s)[idx := buffer s ! idx @ [?l]]"
  from ib len have "buffered_bytes ?buf = buffered_bytes (buffer s) + getsize ?l"
    by (intro buffered_bytes_append) simp
  with bb size_l have ge: "CHUNK_WRITE_SIZE \<le> buffered_bytes ?buf"
    by (simp add: CHUNK_WRITE_SIZE_def)
  from step nel obtain c' idx' where c': "ipv6_to_canonical (strip ?l) = Inr c'"
    and idx': "partition_index example_env c' = Inr idx'"
    and br: "let buf = (buffer s)[idx' := buffer s ! idx' @ [c' @ [10]]] in
                    if CHUNK_WRITE_SIZE \<le> buffered_bytes buf
                    then buffer_size s' = 0 \<and> length (buffer s') = NUM_PARTITIONS \<and>
                         (\<forall>i < NUM_PARTITIONS. buffer s' ! i = [] \<and>
                            file_text e' (partition_name i) =
                              file_text e (partition_name i) @ concat (buf ! i))
                    else buffer s' = buf \<and> e' = e \<and> buffer_size s' = buffered_bytes buf"
    by (simp only: if_False) blast
  from c' canl have ce: "c' = ?c" by simp
  with idx' idx have ie: "idx' = idx" by simp
  from br ge have z: "buffer_size s' = 0" and len': "length (buffer s') = NUM_PARTITIONS"
    and fl: "\<forall>i < NUM_PARTITIONS. buffer s' ! i = [] \<and>
               file_text e' (partition_name i) = file_text e (partition_name i) @ concat (?buf ! i)"
    unfolding ce ie Let_def by simp_all
  from fl have empty: "\<forall>i < NUM_PARTITIONS. buffer s' ! i = []" by simp
  have ft0: "file_text example_spill_dir (partition_name idx) = []"
    using example_spill_dir_empty ib by (simp add: file_text_def)
  from ib len have "?buf ! idx = buffer s ! idx @ [?l]" by simp
  with s_idx r1 have bi: "?buf ! idx = replicate 209716 ?l" by simp
  from fl ib have "file_text e' (partition_name idx) =
      file_text e (partition_name idx) @ concat (?buf ! idx)" by simp
  with e_eq ft0 bi have fe: "file_text e' (partition_name idx) = concat (replicate 209716 ?l)"
    by simp
  have i1: "idx < length (buffer s')" using ib len' by simp
  have b1: "buffer_size s' + 1 * (length ?c + 1) < CHUNK_WRITE_SIZE"
    using z by (simp add: example_address_facts(2) CHUNK_WRITE_SIZE_def)
  from partition_loop_buffering[OF canl nel idx i1 b1, of partition_paths e']
  have last_step: "partition_loop example_env partition_paths [?l] s' e' =
      (Inr \<lparr>buffer = (buffer s')[idx := buffer s' ! idx @ [?l]],
            buffer_size = buffer_size s' + 1 * (length ?c + 1)\<rparr>, e')" by simp
  have "readlines example_long_text = (replicate 209715 ?l @ [?l]) @ [?l]" using lines by simp
  then have "partition_loop example_env partition_paths (readlines example_long_text) ?init d0 =
      partition_loop example_env partition_paths [?l] s' e'"
    using q by (simp only: partition_loop_append) simp
  with l last_step have st: "st = \<lparr>buffer = (buffer s')[idx := buffer s' ! idx @ [?l]],
            buffer_size = buffer_size s' + 1 * (length ?c + 1)\<rparr>" and d1: "d1 = e'" by simp_all
  from st i1 empty ib have "buffer st ! idx = [?l]" by simp
  with w ib d1 fe have "file_text d' (partition_name idx) = concat (replicate 209716 ?l) @ ?l"
    by simp
  also have "\<dots> = concat (replicate 209715 ?l @ [?l, ?l])" by (simp only: r1) simp
  also have "\<dots> = example_long_text" by (simp only: r2[symmetric] example_long_text_def)
  finally have fd: "file_text d' (partition_name idx) = example_long_text" .
  from p d0 e_eq have p': "partition_loop example_env partition_paths (replicate 209715 ?l) ?init
      example_spill_dir = (Inr s, example_spill_dir)" by simp
  from s e_eq have s': "partition_line example_env partition_paths ?l s example_spill_dir =
      (Inr s', e')" by simp
  from lines have lines': "readlines example_long_text = replicate 209715 ?l @ [?l, ?l]" by simp
  from run lines' p' bs bb idx s' z empty fe fd show ?thesis
    by (intro exI conjI) assumption+
qed

end
